theory Spec2Isabelle
  imports Main
begin

section \<open>Strings\<close>

text \<open>
  A JavaScript string is a sequence of UTF-16 code units; a code unit is modelled as a
  natural number, so that \<open>length\<close> counts what \<open>String.prototype.length\<close> counts and the
  rupee sign U+20B9 of \<open>extractFees\<close> is one unit. String literals of the source are
  written \<open>js ''...''\<close>.
\<close>

type_synonym jstring = "nat list"

definition js :: "string \<Rightarrow> jstring" where
  "js s = map of_char s"

definition isUpper :: "nat \<Rightarrow> bool" where
  "isUpper c = (65 \<le> c \<and> c \<le> 90)"

definition isLower :: "nat \<Rightarrow> bool" where
  "isLower c = (97 \<le> c \<and> c \<le> 122)"

definition isDigit :: "nat \<Rightarrow> bool" where
  "isDigit c = (48 \<le> c \<and> c \<le> 57)"

text \<open>The class \<open>\s\<close> of a regular expression, which is also what \<open>trim\<close> removes:
  WhiteSpace and LineTerminator of ECMAScript.\<close>

definition isSpace :: "nat \<Rightarrow> bool" where
  "isSpace c = (c = 9 \<or> c = 10 \<or> c = 11 \<or> c = 12 \<or> c = 13 \<or> c = 32 \<or> c = 160
     \<or> c = 5760 \<or> (8192 \<le> c \<and> c \<le> 8202) \<or> c = 8232 \<or> c = 8233 \<or> c = 8239
     \<or> c = 8287 \<or> c = 12288 \<or> c = 65279)"

definition isWord :: "nat \<Rightarrow> bool" where
  "isWord c = (isUpper c \<or> isLower c \<or> isDigit c \<or> c = 95)"

definition toLowerChar :: "nat \<Rightarrow> nat" where
  "toLowerChar c = (if isUpper c then c + 32 else c)"

definition toUpperChar :: "nat \<Rightarrow> nat" where
  "toUpperChar c = (if isLower c then c - 32 else c)"

text \<open>
  \<open>String.prototype.toLowerCase\<close> is a function of the JavaScript library, which follows
  the Unicode case tables: it is not part of the parser. The parser is modelled over it:
  every function that lower-cases a text takes the lower-casing function as its first
  argument, \<open>lc\<close>, and what holds for every \<open>lc\<close> holds for the one of the library.
\<close>

type_synonym lowering = "jstring \<Rightarrow> jstring"

text \<open>
  On a text of ASCII units the library lower-cases the letters A to Z, unit by unit:
  that is \<open>asciiLower\<close>, with which the parser is run on the ASCII texts of the examples.
  The last section shows that on an ASCII text nothing else of the lower-casing function
  matters.
\<close>

definition ascii :: "jstring \<Rightarrow> bool" where
  "ascii s = list_all (\<lambda>c. c < 128) s"

definition asciiLower :: lowering where
  "asciiLower s = map toLowerChar s"

text \<open>
  What the proofs use of the library's lower-casing: an ASCII text is lower-cased by
  \<open>asciiLower\<close>, and a stretch of ASCII units inside any text is lower-cased in place (the
  case tables map one character at a time, and the only mapping that looks at the
  neighbours, that of the capital sigma, changes no ASCII unit). The lengths of the parts
  before and after the stretch may change.
\<close>

definition lowers :: "lowering \<Rightarrow> bool" where
  "lowers lc \<longleftrightarrow>
     (\<forall>s. ascii s \<longrightarrow> lc s = asciiLower s)
     \<and> (\<forall>pre s post. ascii s \<longrightarrow>
           (\<exists>pre' post'. lc (pre @ s @ post) = pre' @ asciiLower s @ post'))"

fun startsWith :: "jstring \<Rightarrow> jstring \<Rightarrow> bool" where
  "startsWith s [] = True"
| "startsWith [] (p # ps) = False"
| "startsWith (x # xs) (p # ps) = (x = p \<and> startsWith xs ps)"

text \<open>\<open>s.indexOf(sub)\<close>: the first index at which \<open>sub\<close> occurs, \<open>None\<close> for \<open>-1\<close>.\<close>

fun indexOf :: "jstring \<Rightarrow> jstring \<Rightarrow> nat option" where
  "indexOf [] sub = (if sub = [] then Some 0 else None)"
| "indexOf (x # xs) sub =
     (if startsWith (x # xs) sub then Some 0 else map_option Suc (indexOf xs sub))"

text \<open>\<open>s.includes(sub)\<close>.\<close>

definition includes_str :: "jstring \<Rightarrow> jstring \<Rightarrow> bool" where
  "includes_str s sub = (indexOf s sub \<noteq> None)"

text \<open>\<open>s.slice(a, b)\<close> and \<open>s.slice(a)\<close> for indices that are not negative.\<close>

definition slice :: "jstring \<Rightarrow> nat \<Rightarrow> nat \<Rightarrow> jstring" where
  "slice s a b = take (b - a) (drop a s)"

definition trim :: "jstring \<Rightarrow> jstring" where
  "trim s = rev (dropWhile isSpace (rev (dropWhile isSpace s)))"

text \<open>\<open>s.split('\n')\<close>: the pieces between the separators; one piece for a string without
  separator, the empty string included.\<close>

fun split :: "nat \<Rightarrow> jstring \<Rightarrow> jstring list" where
  "split sep [] = [[]]"
| "split sep (x # xs) =
     (if x = sep then [] # split sep xs
      else (case split sep xs of [] \<Rightarrow> [[x]] | l # ls \<Rightarrow> (x # l) # ls))"

text \<open>\<open>parts.join(sep)\<close>.\<close>

fun join :: "jstring \<Rightarrow> jstring list \<Rightarrow> jstring" where
  "join sep [] = []"
| "join sep [p] = p"
| "join sep (p # ps) = p @ sep @ join sep ps"

section \<open>Regular expressions\<close>

text \<open>
  The regular expressions of the source are kept as syntax trees and run by a
  backtracking matcher that follows the ECMAScript semantics: alternatives in order,
  greedy quantifiers, numbered capture groups, the flag \<open>i\<close>. A character class is a list
  of atoms, possibly negated.
\<close>

datatype atom = Ch nat | Rng nat nat | Dig | Spc | Wrd

datatype regex =
    Eps
  | Bol
  | Sym bool "atom list"
  | Seq regex regex
  | Alt regex regex
  | Grp nat regex
  | Rep nat "nat option" regex

text \<open>With the flag \<open>i\<close> two code units match when their canonical (upper-case) forms are
  equal; a range then matches a unit when it holds a unit of the same canonical form.
  Without the flag \<open>u\<close> the canonical form of a unit outside ASCII is never an ASCII unit,
  and every unit that the expressions of the source name is ASCII or the rupee sign, which
  is its own canonical form: so a unit outside ASCII only matches itself, and
  \<open>toUpperChar\<close> gives the canonical forms that matter here.\<close>

fun atom_match :: "bool \<Rightarrow> atom \<Rightarrow> nat \<Rightarrow> bool" where
  "atom_match ic (Ch a) c = (if ic then toUpperChar a = toUpperChar c else a = c)"
| "atom_match ic (Rng lo hi) c =
     ((lo \<le> c \<and> c \<le> hi)
      \<or> (ic \<and> ((lo \<le> toUpperChar c \<and> toUpperChar c \<le> hi)
              \<or> (lo \<le> toLowerChar c \<and> toLowerChar c \<le> hi))))"
| "atom_match ic Dig c = isDigit c"
| "atom_match ic Spc c = isSpace c"
| "atom_match ic Wrd c = isWord c"

definition class_match :: "bool \<Rightarrow> bool \<Rightarrow> atom list \<Rightarrow> nat \<Rightarrow> bool" where
  "class_match ic neg as c = (list_ex (\<lambda>a. atom_match ic a c) as \<noteq> neg)"

fun groups :: "regex \<Rightarrow> nat list" where
  "groups (Seq a b) = groups a @ groups b"
| "groups (Alt a b) = groups a @ groups b"
| "groups (Grp g r) = g # groups r"
| "groups (Rep mn mx r) = groups r"
| "groups r = []"

type_synonym caps = "nat \<Rightarrow> jstring option"

text \<open>A state of the matcher: the input still to be read, and the captures so far.\<close>

type_synonym mstate = "jstring \<times> caps"

definition clear :: "nat list \<Rightarrow> caps \<Rightarrow> caps" where
  "clear gs c = (\<lambda>g. if g \<in> set gs then None else c g)"

fun dec :: "nat option \<Rightarrow> nat option" where
  "dec None = None"
| "dec (Some k) = Some (k - 1)"

text \<open>
  \<open>rmatch ic n r st\<close> lists the states in which a match of \<open>r\<close> from \<open>st\<close> can end, in the
  order in which backtracking tries them: the head of the list is the match the engine
  reports. \<open>n\<close> is the length of the whole input (for \<open>^\<close>). The case of \<open>Rep\<close> is
  RepeatMatcher: the captures of the body are reset before each round, a round is
  compulsory while the minimum is not reached, and past the minimum a round that reads
  nothing is rejected.
\<close>

function (sequential) rmatch :: "bool \<Rightarrow> nat \<Rightarrow> regex \<Rightarrow> mstate \<Rightarrow> mstate list" where
  "rmatch ic n Eps st = [st]"
| "rmatch ic n Bol (rest, c) = (if length rest = n then [(rest, c)] else [])"
| "rmatch ic n (Sym neg as) (rest, c) =
     (case rest of
        [] \<Rightarrow> []
      | x # xs \<Rightarrow> if class_match ic neg as x then [(xs, c)] else [])"
| "rmatch ic n (Seq a b) st = concat (map (rmatch ic n b) (rmatch ic n a st))"
| "rmatch ic n (Alt a b) st = rmatch ic n a st @ rmatch ic n b st"
| "rmatch ic n (Grp g r) (rest, c) =
     map (\<lambda>(rest', c'). (rest', c'(g \<mapsto> take (length rest - length rest') rest)))
       (rmatch ic n r (rest, c))"
| "rmatch ic n (Rep mn mx r) (rest, c) =
     (if mx = Some 0 then [(rest, c)]
      else
        let again = concat (map (\<lambda>(rest', c').
                if 0 < mn then rmatch ic n (Rep (mn - 1) (dec mx) r) (rest', c')
                else if length rest' < length rest then rmatch ic n (Rep 0 (dec mx) r) (rest', c')
                else [])
              (rmatch ic n r (rest, clear (groups r) c)))
        in if 0 < mn then again else again @ [(rest, c)])"
  by pat_completeness auto
termination
  by (relation "inv_image (less_than <*lex*> less_than <*lex*> less_than)
        (\<lambda>(ic, n, r, rest, c). (size r, (case r of Rep mn mx r' \<Rightarrow> mn | _ \<Rightarrow> 0), length rest))")
     auto

declare rmatch.simps(7) [simp del]

text \<open>The result of a match: where it starts, the text it covers (\<open>match[0]\<close>) and the
  capture groups (\<open>match[1]\<close>, ...; \<open>None\<close> is \<open>undefined\<close>).\<close>

record rmatch_result =
  index :: nat
  whole :: jstring
  grp :: caps

text \<open>The search of \<open>RegExpBuiltinExec\<close>: the start positions are tried from left to right,
  the end of the input included, and the first position with a match wins.\<close>

fun search :: "bool \<Rightarrow> nat \<Rightarrow> regex \<Rightarrow> jstring \<Rightarrow> rmatch_result option" where
  "search ic n r [] =
     (case rmatch ic n r ([], Map.empty) of
        [] \<Rightarrow> None
      | (rest', c) # _ \<Rightarrow> Some \<lparr>index = n, whole = [], grp = c\<rparr>)"
| "search ic n r (x # xs) =
     (case rmatch ic n r (x # xs, Map.empty) of
        [] \<Rightarrow> search ic n r xs
      | (rest', c) # _ \<Rightarrow>
          Some \<lparr>index = n - length (x # xs),
                whole = take (length (x # xs) - length rest') (x # xs), grp = c\<rparr>)"

text \<open>\<open>s.match(re)\<close> for a regular expression without the flag \<open>g\<close>; \<open>ic\<close> is the flag \<open>i\<close>.\<close>

definition re_match :: "bool \<Rightarrow> regex \<Rightarrow> jstring \<Rightarrow> rmatch_result option" where
  "re_match ic r s = search ic (length s) r s"

lemma search_index_ge:
  "search ic n r rest = Some m \<Longrightarrow> n - length rest \<le> index m"
  by (induction rest) (auto split: list.splits)

text \<open>The matches of a regular expression with the flag \<open>g\<close>, as \<open>match\<close> and \<open>replace\<close>
  collect them: each search starts at \<open>lastIndex\<close>, which moves to the end of the match
  found, and one unit further after an empty match.\<close>

function exec_all :: "bool \<Rightarrow> regex \<Rightarrow> jstring \<Rightarrow> nat \<Rightarrow> rmatch_result list" where
  "exec_all ic r s lastIndex =
     (if length s < lastIndex then []
      else (case search ic (length s) r (drop lastIndex s) of
              None \<Rightarrow> []
            | Some m \<Rightarrow>
                m # exec_all ic r s
                      (if whole m = [] then index m + 1 else index m + length (whole m))))"
  by pat_completeness auto
termination
proof (relation "measure (\<lambda>(ic, r, s, lastIndex). Suc (length s) - lastIndex)", goal_cases)
  case 1
  show ?case by simp
next
  case (2 ic r s lastIndex m)
  from search_index_ge [OF 2(2)] 2(1) have "lastIndex \<le> index m" by simp
  with 2(1) show ?case by (cases "whole m") auto
qed

declare exec_all.simps [simp del]

text \<open>\<open>s.match(re)\<close> for a regular expression with the flag \<open>g\<close>: the matched texts (the
  source reads \<open>null\<close> as the empty array).\<close>

definition match_all :: "bool \<Rightarrow> regex \<Rightarrow> jstring \<Rightarrow> jstring list" where
  "match_all ic r s = map whole (exec_all ic r s 0)"

fun splice :: "jstring \<Rightarrow> nat \<Rightarrow> rmatch_result list \<Rightarrow> jstring \<Rightarrow> jstring" where
  "splice s pos [] repl = drop pos s"
| "splice s pos (m # ms) repl =
     slice s pos (index m) @ repl @ splice s (index m + length (whole m)) ms repl"

text \<open>\<open>s.replace(re, repl)\<close> for a regular expression with the flag \<open>g\<close> and a replacement
  text without \<open>$\<close>.\<close>

definition replace_all :: "bool \<Rightarrow> regex \<Rightarrow> jstring \<Rightarrow> jstring \<Rightarrow> jstring" where
  "replace_all ic r s repl = splice s 0 (exec_all ic r s 0) repl"

subsection \<open>Writing the expressions of the source\<close>

definition C :: "char \<Rightarrow> atom" where
  "C ch = Ch (of_char ch)"

text \<open>A literal text, unit by unit.\<close>

definition lit :: "string \<Rightarrow> regex" where
  "lit s = foldr (\<lambda>ch r. Seq (Sym False [C ch]) r) s Eps"

definition seqs :: "regex list \<Rightarrow> regex" where
  "seqs rs = foldr Seq rs Eps"

fun alts :: "regex list \<Rightarrow> regex" where
  "alts [] = Sym False []"
| "alts [r] = r"
| "alts (r # rs) = Alt r (alts rs)"

definition rstar :: "regex \<Rightarrow> regex" where
  "rstar r = Rep 0 None r"

definition rplus :: "regex \<Rightarrow> regex" where
  "rplus r = Rep 1 None r"

definition ropt :: "regex \<Rightarrow> regex" where
  "ropt r = Rep 0 (Some 1) r"

definition cls :: "atom list \<Rightarrow> regex" where
  "cls as = Sym False as"

definition ncls :: "atom list \<Rightarrow> regex" where
  "ncls as = Sym True as"

text \<open>\<open>\s*\<close>, \<open>\d+\<close>, \<open>[^0-9]*\<close> and \<open>[:\-]?\<close>, which most expressions of the source use.\<close>

definition ws :: regex where
  "ws = rstar (cls [Spc])"

definition digits :: regex where
  "digits = rplus (cls [Dig])"

definition nondigits :: regex where
  "nondigits = rstar (ncls [Rng 48 57])"

definition colon_dash :: regex where
  "colon_dash = ropt (cls [C CHR '':'', C CHR ''-''])"

section \<open>The parser of job notifications\<close>

text \<open>A string of the source is truthy when it is not empty; a capture group is truthy
  when it is set and not empty.\<close>

definition truthy :: "jstring option \<Rightarrow> bool" where
  "truthy v = (case v of None \<Rightarrow> False | Some w \<Rightarrow> w \<noteq> [])"

text \<open>The text of a group that took part in the match. Where the source reads a group
  without a test, the expression makes the group part of every match.\<close>

definition capture :: "rmatch_result \<Rightarrow> nat \<Rightarrow> jstring" where
  "capture m k = (case grp m k of None \<Rightarrow> [] | Some w \<Rightarrow> w)"

subsection \<open>extractSection\<close>

text \<open>The next section's heading: \<^verbatim>\<open>/\n\s*[A-Z][A-Z\s]{5,}[:\n]/\<close>.\<close>

definition nextSection :: regex where
  "nextSection = seqs [cls [Ch 10], ws, cls [Rng 65 90], Rep 5 None (cls [Rng 65 90, Spc]),
     cls [C CHR '':'', Ch 10]]"

fun extractSection :: "lowering \<Rightarrow> jstring \<Rightarrow> jstring list \<Rightarrow> jstring" where
  "extractSection lc text [] = []"
| "extractSection lc text (header # headers) =
     (case indexOf (lc text) (lc header) of
        None \<Rightarrow> extractSection lc text headers
      | Some idx \<Rightarrow>
          let startIdx = idx + length header;
              nextSectionMatch = re_match False nextSection (drop startIdx text);
              endIdx = (case nextSectionMatch of
                          None \<Rightarrow> startIdx + 1000
                        | Some m \<Rightarrow> startIdx + (if index m = 0 then 500 else index m))
          in trim (slice text startIdx (min endIdx (startIdx + 1500))))"

text \<open>\<open>section || text\<close>: the section when it is not empty, the whole text otherwise.\<close>

definition orElse :: "jstring \<Rightarrow> jstring \<Rightarrow> jstring" where
  "orElse a b = (if a \<noteq> [] then a else b)"

subsection \<open>detectType\<close>

datatype JobType = Job | AdmitCard | Result | AnswerKey | Admission

definition detectType :: "lowering \<Rightarrow> jstring \<Rightarrow> JobType" where
  "detectType lc text =
     (let lowerText = lc text in
      if includes_str lowerText (js ''admit card'') \<or> includes_str lowerText (js ''hall ticket'')
         \<or> includes_str lowerText (js ''call letter'') then AdmitCard
      else if includes_str lowerText (js ''result'')
         \<and> (includes_str lowerText (js ''download'') \<or> includes_str lowerText (js ''declared'')
            \<or> includes_str lowerText (js ''out'')) then Result
      else if includes_str lowerText (js ''answer key'') then AnswerKey
      else if includes_str lowerText (js ''admission'')
         \<and> \<not> includes_str lowerText (js ''admit card'') then Admission
      else Job)"

subsection \<open>extractPhysicalEligibility\<close>

record PhysicalEntry =
  criteria :: jstring
  male :: jstring
  female :: jstring

text \<open>\<^verbatim>\<open>\d+\.?\d*\<close>\<close>

definition decimal :: regex where
  "decimal = seqs [digits, ropt (lit ''.''), rstar (cls [Dig])]"

text \<open>\<^verbatim>\<open>/height[^0-9]*(\d+\.?\d*)\s*(?:cm|meter)?[^0-9]*(?:male)?[^0-9]*(?:female)?[^0-9]*(\d+\.?\d*)?/i\<close>\<close>

definition heightRe :: regex where
  "heightRe = seqs [lit ''height'', nondigits, Grp 1 decimal, ws,
     ropt (alts [lit ''cm'', lit ''meter'']), nondigits, ropt (lit ''male''), nondigits,
     ropt (lit ''female''), nondigits, ropt (Grp 2 decimal)]"

text \<open>\<^verbatim>\<open>/chest[^0-9]*(\d+)[^\d]*-[^\d]*(\d+)/i\<close>\<close>

definition chestRe :: regex where
  "chestRe = seqs [lit ''chest'', nondigits, Grp 1 digits, rstar (ncls [Dig]), lit ''-'',
     rstar (ncls [Dig]), Grp 2 digits]"

text \<open>\<^verbatim>\<open>/weight[^0-9]*(\d+\.?\d*)\s*(?:kg)?/i\<close>\<close>

definition weightRe :: regex where
  "weightRe = seqs [lit ''weight'', nondigits, Grp 1 decimal, ws, ropt (lit ''kg'')]"

definition physicalHeaders :: "jstring list" where
  "physicalHeaders = [js ''Physical Eligibility'', js ''PHYSICAL ELIGIBILITY'',
     js ''Physical Standard'', js ''PHYSICAL STANDARD'', js ''Physical Test'']"

definition extractPhysicalEligibility :: "lowering \<Rightarrow> jstring \<Rightarrow> PhysicalEntry list" where
  "extractPhysicalEligibility lc text =
     (let physSection = extractSection lc text physicalHeaders in
      if physSection = [] then []
      else
        (case re_match True heightRe physSection of
           None \<Rightarrow> []
         | Some m \<Rightarrow>
             [\<lparr>criteria = js ''Height'',
               male = (if truthy (grp m 1) then capture m 1 @ js '' cm'' else js ''NA''),
               female = (if truthy (grp m 2) then capture m 2 @ js '' cm'' else js ''NA'')\<rparr>])
        @ (case re_match True chestRe physSection of
             None \<Rightarrow> []
           | Some m \<Rightarrow>
               [\<lparr>criteria = js ''Chest'',
                 male = capture m 1 @ js ''-'' @ capture m 2 @ js '' cm'',
                 female = js ''NA''\<rparr>])
        @ (case re_match True weightRe physSection of
             None \<Rightarrow> []
           | Some m \<Rightarrow>
               [\<lparr>criteria = js ''Weight'', male = capture m 1 @ js '' kg'',
                 female = js ''NA''\<rparr>]))"

subsection \<open>extractFees\<close>

record FeeEntry =
  category :: jstring
  fee :: jstring

definition rupee :: nat where
  "rupee = 8377"

text \<open>Every fee expression of the source ends in
  \<^verbatim>\<open>\s*[:\-]?\s*(?:RUPEE|rs\.?|inr)?\s*(CAPTURE)\<close>, where RUPEE is the rupee sign and CAPTURE
  is \<^verbatim>\<open>[\d,]+\<close> or \<^verbatim>\<open>[\d,]+|nil|exempted\<close>.\<close>

definition currency :: regex where
  "currency = ropt (alts [cls [Ch rupee], Seq (lit ''rs'') (ropt (lit ''.'')), lit ''inr''])"

definition amount :: regex where
  "amount = rplus (cls [Dig, C CHR '',''])"

definition amountOrNil :: regex where
  "amountOrNil = alts [amount, lit ''nil'', lit ''exempted'']"

definition feeTail :: "regex \<Rightarrow> regex" where
  "feeTail cap = seqs [ws, colon_dash, ws, currency, ws, Grp 1 cap]"

text \<open>\<^verbatim>\<open>(?:\/\s*)?\<close>\<close>

definition slash :: regex where
  "slash = ropt (Seq (lit ''/'') ws)"

definition feePatterns :: "(regex \<times> jstring) list" where
  "feePatterns =
     [(Seq (seqs [lit ''general'', ws, slash, ropt (seqs [lit ''ews'', ws, slash]),
                  ropt (lit ''obc'')]) (feeTail amount), js ''General/EWS/OBC''),
      (Seq (lit ''general'') (feeTail amount), js ''General''),
      (Seq (lit ''obc'') (feeTail amount), js ''OBC''),
      (Seq (lit ''ews'') (feeTail amount), js ''EWS''),
      (Seq (seqs [lit ''sc'', ws, slash, lit ''st'']) (feeTail amountOrNil), js ''SC/ST''),
      (Seq (lit ''sc'') (feeTail amountOrNil), js ''SC''),
      (Seq (lit ''st'') (feeTail amountOrNil), js ''ST''),
      (Seq (lit ''female'') (feeTail amountOrNil), js ''Female''),
      (Seq (alts [lit ''ph'', lit ''pwd'', lit ''divyang'']) (feeTail amountOrNil), js ''PH/PWD''),
      (Seq (seqs [lit ''ex'', rstar (cls [C CHR ''-'', Spc]), lit ''servicem'',
                  cls [C CHR ''a'', C CHR ''e''], lit ''n'']) (feeTail amountOrNil),
       js ''Ex-Serviceman'')]"

text \<open>\<^verbatim>\<open>/,/g\<close>\<close>

definition commaRe :: regex where
  "commaRe = lit '',''"

definition formatFee :: "lowering \<Rightarrow> jstring \<Rightarrow> jstring" where
  "formatFee lc cap =
     (if lc cap = js ''nil'' \<or> lc cap = js ''exempted'' then js ''Nil''
      else [rupee] @ replace_all False commaRe cap [] @ js ''/-'')"

definition feeStep :: "lowering \<Rightarrow> jstring \<Rightarrow> FeeEntry list \<Rightarrow> regex \<times> jstring \<Rightarrow> FeeEntry list" where
  "feeStep lc searchText fees pattern =
     (case re_match True (fst pattern) searchText of
        None \<Rightarrow> fees
      | Some m \<Rightarrow>
          if truthy (grp m 1) then
            (if find (\<lambda>f. category f = snd pattern) fees = None
             then fees @ [\<lparr>category = snd pattern, fee = formatFee lc (capture m 1)\<rparr>]
             else fees)
          else fees)"

definition feeHeaders :: "jstring list" where
  "feeHeaders = [js ''Application Fee'', js ''APPLICATION FEE'', js ''Exam Fee'', js ''EXAM FEE'']"

definition extractFees :: "lowering \<Rightarrow> jstring \<Rightarrow> FeeEntry list" where
  "extractFees lc text =
     (let feeSection = extractSection lc text feeHeaders;
          searchText = orElse feeSection text
      in foldl (feeStep lc searchText) [] feePatterns)"

subsection \<open>extractAgeLimit\<close>

record AgeEntry =
  category :: jstring
  minAge :: jstring
  maxAge :: jstring

text \<open>\<^verbatim>\<open>(?:to|-)\<close>\<close>

definition to_dash :: regex where
  "to_dash = alts [lit ''to'', lit ''-'']"

text \<open>\<^verbatim>\<open>/(?:minimum|min)\s*(?:age)?\s*[:\-]?\s*(\d+)\s*(?:years?)?[\s,]*(?:maximum|max)\s*(?:age)?\s*[:\-]?\s*(\d+)/i\<close>\<close>

definition singleAgeRe :: regex where
  "singleAgeRe = seqs [alts [lit ''minimum'', lit ''min''], ws, ropt (lit ''age''), ws,
     colon_dash, ws, Grp 1 digits, ws, ropt (Seq (lit ''year'') (ropt (lit ''s''))),
     rstar (cls [Spc, C CHR '','']), alts [lit ''maximum'', lit ''max''], ws,
     ropt (lit ''age''), ws, colon_dash, ws, Grp 2 digits]"

text \<open>\<^verbatim>\<open>/(\d+)\s*(?:to|-)\s*(\d+)\s*years?/i\<close>\<close>

definition rangeRe :: regex where
  "rangeRe = seqs [Grp 1 digits, ws, to_dash, ws, Grp 2 digits, ws, lit ''year'',
     ropt (lit ''s'')]"

text \<open>The expression of a category is
  \<^verbatim>\<open>KEY\s*[:\-]?\s*(\d+)\s*(?:to|-)\s*(\d+)|KEY2\s*[:\-]?[^0-9]*max(?:imum)?\s*(\d+)\<close>, where
  KEY is the key word (\<^verbatim>\<open>sc\s*(?:\/\s*st)?\<close> for SC/ST) and KEY2 the key word alone.\<close>

definition ageRange :: "regex \<Rightarrow> regex" where
  "ageRange key = seqs [key, ws, colon_dash, ws, Grp 1 digits, ws, to_dash, ws, Grp 2 digits]"

definition ageMax :: "regex \<Rightarrow> regex" where
  "ageMax key = seqs [key, ws, colon_dash, nondigits, lit ''max'', ropt (lit ''imum''), ws,
     Grp 3 digits]"

definition categoryPatterns :: "(regex \<times> jstring) list" where
  "categoryPatterns =
     [(Alt (ageRange (lit ''general'')) (ageMax (lit ''general'')), js ''General''),
      (Alt (ageRange (lit ''obc'')) (ageMax (lit ''obc'')), js ''OBC''),
      (Alt (ageRange (seqs [lit ''sc'', ws, ropt (seqs [lit ''/'', ws, lit ''st''])]))
           (ageMax (lit ''sc'')), js ''SC/ST''),
      (Alt (ageRange (lit ''ews'')) (ageMax (lit ''ews'')), js ''EWS'')]"

text \<open>\<open>a || b\<close> on capture groups and a default text.\<close>

definition orDefault :: "jstring option \<Rightarrow> jstring \<Rightarrow> jstring" where
  "orDefault v d = (case v of None \<Rightarrow> d | Some w \<Rightarrow> if w \<noteq> [] then w else d)"

definition ageStep :: "jstring \<Rightarrow> AgeEntry list \<Rightarrow> regex \<times> jstring \<Rightarrow> AgeEntry list" where
  "ageStep searchText ages pattern =
     (case re_match True (fst pattern) searchText of
        None \<Rightarrow> ages
      | Some m \<Rightarrow>
          let minAge = orDefault (grp m 1) (js ''18'');
              maxAge = orDefault (grp m 2) (orDefault (grp m 3) (js ''35''))
          in if find (\<lambda>a. AgeEntry.category a = snd pattern) ages = None
             then ages @ [\<lparr>category = snd pattern, minAge = minAge, maxAge = maxAge\<rparr>]
             else ages)"

definition ageHeaders :: "jstring list" where
  "ageHeaders = [js ''Age Limit'', js ''AGE LIMIT'', js ''Age Limits'']"

definition extractAgeLimit :: "lowering \<Rightarrow> jstring \<Rightarrow> AgeEntry list" where
  "extractAgeLimit lc text =
     (let ageSection = extractSection lc text ageHeaders;
          searchText = orElse ageSection text;
          ages1 = (case re_match True singleAgeRe searchText of
                     None \<Rightarrow> []
                   | Some m \<Rightarrow> [\<lparr>category = js ''General'', minAge = capture m 1,
                                 maxAge = capture m 2\<rparr>]);
          ages2 = (case re_match True rangeRe searchText of
                     None \<Rightarrow> ages1
                   | Some m \<Rightarrow>
                       if length ages1 = 0
                       then ages1 @ [\<lparr>category = js ''General'', minAge = capture m 1,
                                      maxAge = capture m 2\<rparr>]
                       else ages1)
      in foldl (ageStep searchText) ages2 categoryPatterns)"

subsection \<open>extractDates\<close>

record DateEntry =
  label :: jstring
  date :: jstring

text \<open>\<^verbatim>\<open>[\d\/\-]+\s*\w*\s*\d{4}\<close> and \<^verbatim>\<open>\d{1,2}\s+\w+\s+\d{4}\<close>\<close>

definition dateA :: regex where
  "dateA = seqs [rplus (cls [Dig, C CHR ''/'', C CHR ''-'']), ws, rstar (cls [Wrd]), ws,
     Rep 4 (Some 4) (cls [Dig])]"

definition dateB :: regex where
  "dateB = seqs [Rep 1 (Some 2) (cls [Dig]), rplus (cls [Spc]), rplus (cls [Wrd]),
     rplus (cls [Spc]), Rep 4 (Some 4) (cls [Dig])]"

definition notifySoon :: regex where
  "notifySoon = seqs [lit ''notify'', ws, lit ''soon'']"

definition datePatterns :: "(regex \<times> jstring) list" where
  "datePatterns =
     [(seqs [lit ''application'', ws,
             alts [lit ''begin'', lit ''start'', Seq (lit ''start'') (ropt (lit ''s''))], ws,
             colon_dash, ws, Grp 1 (alts [dateA, dateB])], js ''Application Start''),
      (seqs [alts [lit ''last'', lit ''closing''], ws, lit ''date'', ws,
             ropt (seqs [lit ''for'', ws, alts [lit ''apply'', lit ''application'', lit ''online'']]),
             ws, colon_dash, ws, Grp 1 (alts [dateA, dateB])], js ''Last Date''),
      (seqs [lit ''late'', ws, lit ''fee'', ws,
             ropt (alts [lit ''date'', seqs [lit ''last'', ws, lit ''date'']]), ws,
             colon_dash, ws, Grp 1 (alts [dateA, dateB])], js ''Late Fee Date''),
      (seqs [lit ''exam'', ws, lit ''date'', ws, colon_dash, ws,
             Grp 1 (alts [dateA, dateB, notifySoon,
                          seqs [lit ''will'', ws, lit ''be'', ws, lit ''notified'']])],
       js ''Exam Date''),
      (seqs [lit ''admit'', ws, lit ''card'', ws, ropt (alts [lit ''date'', lit ''available'']),
             ws, colon_dash, ws,
             Grp 1 (alts [dateA, dateB, seqs [lit ''before'', ws, lit ''exam''], notifySoon])],
       js ''Admit Card''),
      (seqs [lit ''result'', ws, ropt (alts [lit ''date'', lit ''declaration'']), ws,
             colon_dash, ws,
             Grp 1 (alts [dateA, notifySoon,
                          seqs [lit ''will'', ws, lit ''be'', ws, lit ''updated'']])],
       js ''Result Date''),
      (seqs [lit ''fee'', ws, lit ''payment'', ws, ropt (seqs [lit ''last'', ws, lit ''date'']),
             ws, colon_dash, ws, Grp 1 (alts [dateA, dateB])], js ''Fee Payment Last Date'')]"

text \<open>\<^verbatim>\<open>/^([^:]+):\s*([\d\/\-]+\s*\w*\s*\d{4}|\d{1,2}\s+\w+\s+\d{4})/\<close>\<close>

definition colonRe :: regex where
  "colonRe = seqs [Bol, Grp 1 (rplus (ncls [C CHR '':''])), lit '':'', ws,
     Grp 2 (alts [dateA, dateB])]"

definition dateStep :: "jstring \<Rightarrow> DateEntry list \<Rightarrow> regex \<times> jstring \<Rightarrow> DateEntry list" where
  "dateStep searchText dates pattern =
     (case re_match True (fst pattern) searchText of
        None \<Rightarrow> dates
      | Some m \<Rightarrow>
          if truthy (grp m 1)
          then dates @ [\<lparr>label = snd pattern, date = trim (capture m 1)\<rparr>]
          else dates)"

definition lineStep :: "lowering \<Rightarrow> DateEntry list \<Rightarrow> jstring \<Rightarrow> DateEntry list" where
  "lineStep lc dates line =
     (case re_match False colonRe line of
        None \<Rightarrow> dates
      | Some colonMatch \<Rightarrow>
          if find (\<lambda>d. lc (label d) = lc (trim (capture colonMatch 1))) dates
               = None
          then (let lab = trim (capture colonMatch 1)
                in if 3 < length lab \<and> length lab < 50
                   then dates @ [\<lparr>label = lab, date = trim (capture colonMatch 2)\<rparr>]
                   else dates)
          else dates)"

definition dateHeaders :: "jstring list" where
  "dateHeaders = [js ''Important Dates'', js ''IMPORTANT DATES'', js ''Important Date'']"

definition extractDates :: "lowering \<Rightarrow> jstring \<Rightarrow> DateEntry list" where
  "extractDates lc text =
     (let dateSection = extractSection lc text dateHeaders;
          searchText = orElse dateSection text;
          dates = foldl (dateStep searchText) [] datePatterns
      in foldl (lineStep lc) dates (split 10 searchText))"

subsection \<open>extractVacancyDetails\<close>

record VacancyEntry =
  postName :: jstring
  totalPost :: jstring
  eligibility :: jstring

text \<open>\<^verbatim>\<open>[A-Za-z\s]+\<close>\<close>

definition words :: regex where
  "words = rplus (cls [Rng 65 90, Rng 97 122, Spc])"

text \<open>\<^verbatim>\<open>/total\s*(?:post|vacancy|vacancies)\s*[:\-]?\s*([\d,]+)/i\<close>\<close>

definition totalRe :: regex where
  "totalRe = seqs [lit ''total'', ws, alts [lit ''post'', lit ''vacancy'', lit ''vacancies''],
     ws, colon_dash, ws, Grp 1 amount]"

text \<open>\<^verbatim>\<open>/([A-Za-z\s]+(?:constable|officer|clerk|assistant|manager|engineer|teacher|inspector)?)[:\-\s]+([\d,]+)\s*(?:post|vacancy)?/i\<close>\<close>

definition postRe :: regex where
  "postRe = seqs [Grp 1 (seqs [words,
       ropt (alts [lit ''constable'', lit ''officer'', lit ''clerk'', lit ''assistant'',
                   lit ''manager'', lit ''engineer'', lit ''teacher'', lit ''inspector''])]),
     rplus (cls [C CHR '':'', C CHR ''-'', Spc]), Grp 2 amount, ws,
     ropt (alts [lit ''post'', lit ''vacancy''])]"

text \<open>\<^verbatim>\<open>(?:recruitment|notification|online\s*form)\s*(?:for|of)?\s*\<close>\<close>

definition announcement :: regex where
  "announcement = seqs [alts [lit ''recruitment'', lit ''notification'',
       seqs [lit ''online'', ws, lit ''form'']], ws, ropt (alts [lit ''for'', lit ''of'']), ws]"

text \<open>\<^verbatim>\<open>/(?:recruitment|notification|online\s*form)\s*(?:for|of)?\s*([A-Za-z\s]+)/i\<close>\<close>

definition postTitleRe :: regex where
  "postTitleRe = Seq announcement (Grp 1 words)"

definition vacancyStep :: "VacancyEntry list \<Rightarrow> jstring \<Rightarrow> VacancyEntry list" where
  "vacancyStep vacancies line =
     (case re_match True postRe line of
        None \<Rightarrow> vacancies
      | Some postMatch \<Rightarrow>
          if 3 < length (trim (capture postMatch 1))
          then vacancies @ [\<lparr>postName = trim (capture postMatch 1),
                 totalPost = replace_all False commaRe (capture postMatch 2) [],
                 eligibility = []\<rparr>]
          else vacancies)"

definition vacancyHeaders :: "jstring list" where
  "vacancyHeaders = [js ''Vacancy Details'', js ''VACANCY DETAILS'', js ''Post Wise Vacancy'',
     js ''POST WISE VACANCY'', js ''Total Post'']"

definition extractVacancyDetails :: "lowering \<Rightarrow> jstring \<Rightarrow> VacancyEntry list" where
  "extractVacancyDetails lc text =
     (let vacSection = extractSection lc text vacancyHeaders;
          searchText = orElse vacSection text;
          totalMatch = re_match True totalRe text;
          vacancies = foldl vacancyStep [] (split 10 searchText)
      in case totalMatch of
           None \<Rightarrow> vacancies
         | Some tm \<Rightarrow>
             if length vacancies = 0
             then vacancies @ [\<lparr>postName = (case re_match True postTitleRe text of
                                               None \<Rightarrow> js ''Various Posts''
                                             | Some titleMatch \<Rightarrow> trim (capture titleMatch 1)),
                    totalPost = replace_all False commaRe (capture tm 1) [],
                    eligibility = []\<rparr>]
             else vacancies)"

subsection \<open>extractLinks\<close>

text \<open>The six link fields, each absent (\<open>None\<close>) or a text.\<close>

record Links =
  applyOnlineUrl :: "jstring option"
  admitCardUrl :: "jstring option"
  resultUrl :: "jstring option"
  answerKeyUrl :: "jstring option"
  notificationUrl :: "jstring option"
  officialWebsiteUrl :: "jstring option"

text \<open>\<^verbatim>\<open>/https?:\/\/[^\s<>"')\]]+/gi\<close>\<close>

definition urlRegex :: regex where
  "urlRegex = seqs [lit ''http'', ropt (lit ''s''), lit ''://'',
     rplus (ncls [Spc, C CHR ''<'', C CHR ''>'', Ch 34, Ch 39, C CHR '')'', C CHR '']''])]"

definition allUrls :: "jstring \<Rightarrow> jstring list" where
  "allUrls text = match_all True urlRegex text"

text \<open>\<open>!links.field\<close>: the field is absent or empty.\<close>

definition falsy :: "jstring option \<Rightarrow> bool" where
  "falsy v = (v = None \<or> v = Some [])"

definition linkStep :: "lowering \<Rightarrow> Links \<Rightarrow> jstring \<Rightarrow> Links" where
  "linkStep lc links url =
     (let lowerUrl = lc url in
      if includes_str lowerUrl (js ''apply'') \<or> includes_str lowerUrl (js ''registration'')
      then (if falsy (applyOnlineUrl links) then links\<lparr>applyOnlineUrl := Some url\<rparr> else links)
      else if includes_str lowerUrl (js ''notification'') \<or> includes_str lowerUrl (js ''pdf'')
      then (if falsy (notificationUrl links) then links\<lparr>notificationUrl := Some url\<rparr> else links)
      else if includes_str lowerUrl (js ''admit'') \<or> includes_str lowerUrl (js ''hall-ticket'')
      then (if falsy (admitCardUrl links) then links\<lparr>admitCardUrl := Some url\<rparr> else links)
      else if includes_str lowerUrl (js ''result'')
      then (if falsy (resultUrl links) then links\<lparr>resultUrl := Some url\<rparr> else links)
      else if includes_str lowerUrl (js ''answer'') \<or> includes_str lowerUrl (js ''key'')
      then (if falsy (answerKeyUrl links) then links\<lparr>answerKeyUrl := Some url\<rparr> else links)
      else if includes_str lowerUrl (js ''gov.in'') \<or> includes_str lowerUrl (js ''nic.in'')
      then (if falsy (officialWebsiteUrl links) then links\<lparr>officialWebsiteUrl := Some url\<rparr>
            else links)
      else links)"

definition noLinks :: Links where
  "noLinks = \<lparr>applyOnlineUrl = None, admitCardUrl = None, resultUrl = None,
     answerKeyUrl = None, notificationUrl = None, officialWebsiteUrl = None\<rparr>"

definition extractLinks :: "lowering \<Rightarrow> jstring \<Rightarrow> Links" where
  "extractLinks lc text = foldl (linkStep lc) noLinks (allUrls text)"

subsection \<open>extractSelectionProcess\<close>

definition stages :: "jstring list" where
  "stages = [js ''Written Exam'', js ''Written Test'', js ''CBT'', js ''Computer Based Test'',
     js ''Physical Efficiency Test'', js ''PET'', js ''Physical Standard Test'', js ''PST'',
     js ''Document Verification'', js ''Medical Test'', js ''Medical Examination'',
     js ''Interview'', js ''Skill Test'', js ''Typing Test'', js ''Trade Test'']"

text \<open>\<^verbatim>\<open>/\s+/g\<close>\<close>

definition spacesRe :: regex where
  "spacesRe = rplus (cls [Spc])"

definition stageStep :: "lowering \<Rightarrow> jstring \<Rightarrow> jstring list \<Rightarrow> jstring \<Rightarrow> jstring list" where
  "stageStep lc searchText process stage =
     (if includes_str (lc searchText) (lc stage)
      then (let normalized = trim (replace_all False spacesRe stage (js '' ''))
            in if normalized \<notin> set process then process @ [normalized] else process)
      else process)"

definition selectionHeaders :: "jstring list" where
  "selectionHeaders = [js ''Selection Process'', js ''SELECTION PROCESS'', js ''Mode of Selection'']"

definition extractSelectionProcess :: "lowering \<Rightarrow> jstring \<Rightarrow> jstring list" where
  "extractSelectionProcess lc text =
     (let selSection = extractSection lc text selectionHeaders;
          searchText = orElse selSection text
      in foldl (stageStep lc searchText) [] stages)"

subsection \<open>extractTitle\<close>

text \<open>\<^verbatim>\<open>/recruitment|notification|online\s*form|vacancy|bharti/i\<close>\<close>

definition titleLineRe :: regex where
  "titleLineRe = alts [lit ''recruitment'', lit ''notification'',
     seqs [lit ''online'', ws, lit ''form''], lit ''vacancy'', lit ''bharti'']"

text \<open>\<^verbatim>\<open>/[*#_]+/g\<close>\<close>

definition emphasisRe :: regex where
  "emphasisRe = rplus (cls [C CHR ''*'', C CHR ''#'', C CHR ''_''])"

text \<open>\<^verbatim>\<open>/(?:recruitment|notification|online\s*form)\s*(?:for|of)?\s*([A-Za-z0-9\s\-]+(?:2024|2025|2026)?)/i\<close>\<close>

definition titleRe :: regex where
  "titleRe = Seq announcement
     (Grp 1 (seqs [rplus (cls [Rng 65 90, Rng 97 122, Rng 48 57, Spc, C CHR ''-'']),
                   ropt (alts [lit ''2024'', lit ''2025'', lit ''2026''])]))"

definition extractTitle :: "jstring \<Rightarrow> jstring" where
  "extractTitle text =
     (let lines = filter (\<lambda>l. 0 < length (trim l)) (split 10 text) in
      case find (\<lambda>line. re_match True titleLineRe line \<noteq> None \<and> length line < 150)
             (take 10 lines) of
        Some line \<Rightarrow> trim (replace_all False emphasisRe (trim line) [])
      | None \<Rightarrow>
          (case re_match True titleRe text of
             Some titleMatch \<Rightarrow> trim (whole titleMatch)
           | None \<Rightarrow>
               (case lines of
                  [] \<Rightarrow> js ''Government Job Notification''
                | l # ls \<Rightarrow> orElse (slice l 0 100) (js ''Government Job Notification''))))"

subsection \<open>extractDepartment\<close>

text \<open>\<^verbatim>\<open>/(?:organization|department|ministry|commission|board|corporation)\s*[:\-]?\s*([A-Za-z\s]+)/i\<close>
  and
  \<^verbatim>\<open>/([A-Za-z\s]+(?:commission|board|ministry|department|corporation|police|railway|bank))/i\<close>\<close>

definition deptPatterns :: "regex list" where
  "deptPatterns =
     [seqs [alts [lit ''organization'', lit ''department'', lit ''ministry'', lit ''commission'',
                  lit ''board'', lit ''corporation''], ws, colon_dash, ws, Grp 1 words],
      Grp 1 (seqs [words, alts [lit ''commission'', lit ''board'', lit ''ministry'',
                  lit ''department'', lit ''corporation'', lit ''police'', lit ''railway'',
                  lit ''bank'']])]"

fun firstDepartment :: "jstring \<Rightarrow> regex list \<Rightarrow> jstring" where
  "firstDepartment text [] = js ''Government of India''"
| "firstDepartment text (pattern # patterns) =
     (case re_match True pattern text of
        None \<Rightarrow> firstDepartment text patterns
      | Some m \<Rightarrow>
          if truthy (grp m 1) then slice (trim (capture m 1)) 0 100
          else firstDepartment text patterns)"

definition extractDepartment :: "jstring \<Rightarrow> jstring" where
  "extractDepartment text = firstDepartment text deptPatterns"

subsection \<open>extractQualification\<close>

text \<open>The six expressions, each with its \<open>source\<close> text (92 is the backslash):
  \<^verbatim>\<open>/10th\s*(?:pass|passed|class)/i\<close>,
  \<^verbatim>\<open>/12th\s*(?:pass|passed|class|intermediate)/i\<close>,
  \<^verbatim>\<open>/graduation|graduate|bachelor/i\<close>,
  \<^verbatim>\<open>/post\s*graduation|master/i\<close>,
  \<^verbatim>\<open>/b\.?tech|b\.?e\.|engineering/i\<close>,
  \<^verbatim>\<open>/mbbs|medical/i\<close>.\<close>

definition qualPatterns :: "(regex \<times> jstring) list" where
  "qualPatterns =
     [(seqs [lit ''10th'', ws, alts [lit ''pass'', lit ''passed'', lit ''class'']],
       js ''10th'' @ [92] @ js ''s*(?:pass|passed|class)''),
      (seqs [lit ''12th'', ws, alts [lit ''pass'', lit ''passed'', lit ''class'',
                                      lit ''intermediate'']],
       js ''12th'' @ [92] @ js ''s*(?:pass|passed|class|intermediate)''),
      (alts [lit ''graduation'', lit ''graduate'', lit ''bachelor''],
       js ''graduation|graduate|bachelor''),
      (alts [seqs [lit ''post'', ws, lit ''graduation''], lit ''master''],
       js ''post'' @ [92] @ js ''s*graduation|master''),
      (alts [seqs [lit ''b'', ropt (lit ''.''), lit ''tech''],
             seqs [lit ''b'', ropt (lit ''.''), lit ''e.''], lit ''engineering''],
       js ''b'' @ [92] @ js ''.?tech|b'' @ [92] @ js ''.?e'' @ [92] @ js ''.|engineering''),
      (alts [lit ''mbbs'', lit ''medical''], js ''mbbs|medical'')]"

text \<open>\<^verbatim>\<open>/\\s\*|\?\:|\|/g\<close> and \<^verbatim>\<open>/\\/g\<close>\<close>

definition sourceNoiseRe :: regex where
  "sourceNoiseRe = alts [Seq (cls [Ch 92]) (lit ''s*''), lit ''?:'', lit ''|'']"

definition backslashRe :: regex where
  "backslashRe = cls [Ch 92]"

definition qualStep :: "jstring \<Rightarrow> jstring list \<Rightarrow> regex \<times> jstring \<Rightarrow> jstring list" where
  "qualStep text found pattern =
     (if re_match True (fst pattern) text \<noteq> None
      then found @ [replace_all False backslashRe
                      (replace_all False sourceNoiseRe (snd pattern) (js '' '')) []]
      else found)"

definition qualHeaders :: "jstring list" where
  "qualHeaders = [js ''Educational Qualification'', js ''EDUCATIONAL QUALIFICATION'',
     js ''Qualification'', js ''QUALIFICATION'', js ''Eligibility'']"

definition extractQualification :: "lowering \<Rightarrow> jstring \<Rightarrow> jstring" where
  "extractQualification lc text =
     (let qualSection = extractSection lc text qualHeaders in
      if qualSection \<noteq> [] \<and> 20 < length qualSection then slice qualSection 0 500
      else (let found = foldl (qualStep text) [] qualPatterns
            in if 0 < length found then join (js '', '') found else []))"

subsection \<open>extractState\<close>

definition states :: "jstring list" where
  "states = [js ''Uttar Pradesh'', js ''UP'', js ''Bihar'', js ''Rajasthan'',
     js ''Madhya Pradesh'', js ''MP'', js ''Maharashtra'', js ''Gujarat'', js ''Karnataka'',
     js ''Tamil Nadu'', js ''Kerala'', js ''West Bengal'', js ''Haryana'', js ''Punjab'',
     js ''Delhi'', js ''Uttarakhand'', js ''Jharkhand'', js ''Chhattisgarh'', js ''Odisha'',
     js ''Assam'', js ''Telangana'', js ''Andhra Pradesh'', js ''Himachal Pradesh'',
     js ''Jammu'', js ''Kashmir'']"

definition extractState :: "lowering \<Rightarrow> jstring \<Rightarrow> jstring" where
  "extractState lc text =
     (case find (\<lambda>state. includes_str text state) states of
        Some state \<Rightarrow>
          if state = js ''UP'' then js ''Uttar Pradesh''
          else if state = js ''MP'' then js ''Madhya Pradesh'' else state
      | None \<Rightarrow>
          if includes_str (lc text) (js ''all india'')
             \<or> includes_str (lc text) (js ''central government'')
          then js ''All India'' else [])"

subsection \<open>Numbers\<close>

text \<open>
  The numbers of the source are IEEE 754 doubles. The parser only makes numbers by
  reading integers and adding them, so the numbers it can reach are the doubles with an
  integer value, the two infinities and \<open>NaN\<close>. A finite one is modelled by its value (the
  zero of either sign by 0: the source only tests a zero for truth).
\<close>

datatype number = Num int | Infinity | NegInfinity | NaN

text \<open>The number of binary digits of a natural number.\<close>

function bitlen :: "nat \<Rightarrow> nat" where
  "bitlen k = (if k = 0 then 0 else Suc (bitlen (k div 2)))"
  by pat_completeness auto
termination
  by (relation "measure id") auto

declare bitlen.simps [simp del]

text \<open>
  The double nearest to a natural number, ties going to the even significand of 53
  binary digits; the result is again a natural number, and \<open>2^1024\<close> stands for a value
  that is out of range.
\<close>

definition roundNat :: "nat \<Rightarrow> nat" where
  "roundNat k =
     (let u = 2 ^ (bitlen k - 53); q = k div u; r = k mod u
      in if 2 * r < u then q * u
         else if u < 2 * r then (q + 1) * u
         else if even q then q * u else (q + 1) * u)"

text \<open>The Number value for an integer.\<close>

definition toNumber :: "int \<Rightarrow> number" where
  "toNumber k =
     (let m = roundNat (nat \<bar>k\<bar>)
      in if 2 ^ 1024 \<le> m then (if k < 0 then NegInfinity else Infinity)
         else Num (if k < 0 then - int m else int m))"

text \<open>\<open>a + b\<close> on numbers: the exact sum, rounded.\<close>

fun plusNumber :: "number \<Rightarrow> number \<Rightarrow> number" where
  "plusNumber (Num a) (Num b) = toNumber (a + b)"
| "plusNumber NaN y = NaN"
| "plusNumber x NaN = NaN"
| "plusNumber Infinity NegInfinity = NaN"
| "plusNumber NegInfinity Infinity = NaN"
| "plusNumber Infinity y = Infinity"
| "plusNumber x Infinity = Infinity"
| "plusNumber NegInfinity y = NegInfinity"
| "plusNumber x NegInfinity = NegInfinity"

text \<open>\<open>x > 0\<close>\<close>

fun positive :: "number \<Rightarrow> bool" where
  "positive (Num k) = (0 < k)"
| "positive Infinity = True"
| "positive x = False"

text \<open>
  \<open>parseInt(s)\<close> without a radix: white space is skipped, then a sign, then \<open>0x\<close> or \<open>0X\<close>
  (which selects base 16), and the longest run of digits of the base is read.
  \<open>mathInt s\<close> is the integer so read, \<open>None\<close> when there is no digit; \<open>parseInt\<close> returns
  its Number value, and \<open>NaN\<close> when there is none. (ECMAScript lets an implementation
  ignore the decimal digits after the 20th; the result taken here is the one of V8, which
  rounds the integer as it is written.)
\<close>

definition digitValue :: "nat \<Rightarrow> nat" where
  "digitValue c = (if isDigit c then c - 48 else if isLower c then c - 87 else c - 55)"

definition isDigitOf :: "nat \<Rightarrow> nat \<Rightarrow> bool" where
  "isDigitOf radix c =
     (if radix = 16 then isDigit c \<or> (97 \<le> c \<and> c \<le> 102) \<or> (65 \<le> c \<and> c \<le> 70)
      else isDigit c)"

definition numeral_value :: "nat \<Rightarrow> jstring \<Rightarrow> nat" where
  "numeral_value radix ds = foldl (\<lambda>v d. v * radix + digitValue d) 0 ds"

definition mathInt :: "jstring \<Rightarrow> int option" where
  "mathInt s =
     (let s1 = dropWhile isSpace s;
          negative = startsWith s1 (js ''-'');
          s2 = (if s1 \<noteq> [] \<and> (hd s1 = 43 \<or> hd s1 = 45) then tl s1 else s1);
          hex = (startsWith s2 (js ''0x'') \<or> startsWith s2 (js ''0X''));
          radix = (if hex then 16 else 10);
          s3 = (if hex then drop 2 s2 else s2);
          z = takeWhile (isDigitOf radix) s3
      in if z = [] then None
         else Some (if negative then - int (numeral_value radix z)
                    else int (numeral_value radix z)))"

definition parseInt :: "jstring \<Rightarrow> number" where
  "parseInt s = (case mathInt s of None \<Rightarrow> NaN | Some k \<Rightarrow> toNumber k)"

text \<open>The decimal digits of a natural number.\<close>

function showNat :: "nat \<Rightarrow> jstring" where
  "showNat k = (if k < 10 then [48 + k] else showNat (k div 10) @ [48 + k mod 10])"
  by pat_completeness auto
termination
  by (relation "measure id") auto

declare showNat.simps [simp del]

text \<open>
  \<open>Number::toString\<close> for a double with a positive integer value \<open>x\<close> of \<open>d\<close> decimal
  digits. The digits printed are the fewest that still read back as \<open>x\<close>:
  \<open>shortest x d k\<close> looks for them with \<open>k\<close>, \<open>k + 1\<close>, ... significant digits, among the two
  numbers of that many digits next to \<open>x\<close>, and takes the nearer one (the even one when
  both are as near). It returns the significant digits as a number, with their count.
\<close>

function shortest :: "nat \<Rightarrow> nat \<Rightarrow> nat \<Rightarrow> nat \<times> nat" where
  "shortest x d k =
     (if d \<le> k then (x, d)
      else
        let p = 10 ^ (d - k); lo = x div p; hi = lo + 1;
            okLo = (roundNat (lo * p) = x); okHi = (roundNat (hi * p) = x)
        in if okLo \<and> okHi then
             (if x - lo * p < hi * p - x then (lo, k)
              else if hi * p - x < x - lo * p then (hi, k)
              else if even lo then (lo, k) else (hi, k))
           else if okLo then (lo, k)
           else if okHi then (hi, k)
           else shortest x d (k + 1))"
  by pat_completeness auto
termination
  by (relation "measure (\<lambda>(x, d, k). d - k)") auto

declare shortest.simps [simp del]

text \<open>
  The text printed: the digits followed by zeros up to 21 digits in all, and beyond that
  the exponent form, as in \<^verbatim>\<open>1e+21\<close> and \<^verbatim>\<open>1.2345e+25\<close>.
\<close>

definition showPositive :: "nat \<Rightarrow> jstring" where
  "showPositive x =
     (let d0 = length (showNat x);
          (s0, k0) = shortest x d0 1;
          carry = (s0 = 10 ^ k0);
          s = (if carry then 1 else s0);
          k = (if carry then 1 else k0);
          d = (if carry then d0 + 1 else d0);
          digits = showNat s
      in if d \<le> 21 then digits @ replicate (d - k) 48
         else if k = 1 then digits @ js ''e+'' @ showNat (d - 1)
         else [hd digits] @ js ''.'' @ tl digits @ js ''e+'' @ showNat (d - 1))"

text \<open>A number inside a template literal.\<close>

fun showNumber :: "number \<Rightarrow> jstring" where
  "showNumber NaN = js ''NaN''"
| "showNumber Infinity = js ''Infinity''"
| "showNumber NegInfinity = js ''-Infinity''"
| "showNumber (Num k) =
     (if k = 0 then js ''0''
      else if k < 0 then js ''-'' @ showPositive (nat (- k))
      else showPositive (nat k))"

subsection \<open>parseJobNotification\<close>

text \<open>The record the parser returns: the fields of the interface \<open>ParsedJob\<close>, the six link
  fields being those of \<open>extractLinks\<close> (the source spreads them into the result). An
  optional field is \<open>None\<close> when it is absent or \<open>undefined\<close>.\<close>

record ParsedJob = Links +
  title :: jstring
  department :: jstring
  type :: JobType
  shortInfo :: jstring
  qualification :: "jstring option"
  state :: "jstring option"
  vacancyDetails :: "VacancyEntry list"
  applicationFee :: "FeeEntry list"
  importantDates :: "DateEntry list"
  ageLimit :: "AgeEntry list"
  eligibilityDetails :: "jstring option"
  selectionProcess :: "jstring list"
  physicalEligibility :: "PhysicalEntry list"

text \<open>\<open>x || 0\<close> on numbers: \<open>NaN\<close> and zero are falsy.\<close>

definition orZero :: "number \<Rightarrow> number" where
  "orZero x = (if x = NaN \<or> x = Num 0 then Num 0 else x)"

text \<open>\<open>parseInt(v.totalPost) || 0\<close>\<close>

definition postCount :: "VacancyEntry \<Rightarrow> number" where
  "postCount v = orZero (parseInt (totalPost v))"

text \<open>\<open>vacancyDetails.reduce((sum, v) => sum + (parseInt(v.totalPost) || 0), 0)\<close>\<close>

definition totalPosts :: "VacancyEntry list \<Rightarrow> number" where
  "totalPosts vs = foldl (\<lambda>sum v. plusNumber sum (postCount v)) (Num 0) vs"

text \<open>\<open>x || undefined\<close>\<close>

definition orUndefined :: "jstring \<Rightarrow> jstring option" where
  "orUndefined x = (if x \<noteq> [] then Some x else None)"

definition lastDate :: "DateEntry list \<Rightarrow> jstring option" where
  "lastDate ds = map_option date (find (\<lambda>d. includes_str (label d) (js ''Last'')) ds)"

definition makeShortInfo :: "jstring \<Rightarrow> jstring \<Rightarrow> number \<Rightarrow> DateEntry list \<Rightarrow> jstring" where
  "makeShortInfo dept ttl posts ds =
     trim (dept @ js '' has released notification for '' @ ttl @ js ''. ''
       @ (if positive posts then js ''Total '' @ showNumber posts @ js '' posts available.'' else [])
       @ js '' ''
       @ (if truthy (lastDate ds)
          then js ''Last date to apply: '' @ (case lastDate ds of None \<Rightarrow> [] | Some d \<Rightarrow> d)
               @ js ''.''
          else []))"

definition parseJobNotification :: "lowering \<Rightarrow> jstring \<Rightarrow> ParsedJob" where
  "parseJobNotification lc rawText =
     (let title = extractTitle rawText;
          department = extractDepartment rawText;
          type = detectType lc rawText;
          importantDates = extractDates lc rawText;
          applicationFee = extractFees lc rawText;
          ageLimit = extractAgeLimit lc rawText;
          physicalEligibility = extractPhysicalEligibility lc rawText;
          vacancyDetails = extractVacancyDetails lc rawText;
          selectionProcess = extractSelectionProcess lc rawText;
          qualification = extractQualification lc rawText;
          state = extractState lc rawText;
          links = extractLinks lc rawText;
          shortInfo = makeShortInfo department title (totalPosts vacancyDetails) importantDates
      in \<lparr>applyOnlineUrl = applyOnlineUrl links, admitCardUrl = admitCardUrl links,
          resultUrl = resultUrl links, answerKeyUrl = answerKeyUrl links,
          notificationUrl = notificationUrl links,
          officialWebsiteUrl = officialWebsiteUrl links,
          title = title, department = department, type = type, shortInfo = shortInfo,
          qualification = orUndefined qualification, state = orUndefined state,
          vacancyDetails = vacancyDetails, applicationFee = applicationFee,
          importantDates = importantDates, ageLimit = ageLimit,
          eligibilityDetails = Some qualification, selectionProcess = selectionProcess,
          physicalEligibility = physicalEligibility\<rparr>)"

section \<open>Properties of the matcher\<close>

text \<open>One round of \<open>Rep\<close>, unfolded once.\<close>

lemma rmatch_Rep_iff:
  "st' \<in> set (rmatch ic n (Rep mn mx r) (rest, c)) \<longleftrightarrow>
     (if mx = Some 0 then st' = (rest, c)
      else (\<exists>r1 c1. (r1, c1) \<in> set (rmatch ic n r (rest, clear (groups r) c)) \<and>
              (if 0 < mn then st' \<in> set (rmatch ic n (Rep (mn - 1) (dec mx) r) (r1, c1))
               else length r1 < length rest \<and>
                    st' \<in> set (rmatch ic n (Rep 0 (dec mx) r) (r1, c1))))
           \<or> (mn = 0 \<and> st' = (rest, c)))"
  by (subst rmatch.simps) (auto simp: Let_def split: if_splits)



lemma rmatch_RepE:
  assumes "st' \<in> set (rmatch ic n (Rep mn mx r) (rest, c))"
  obtains
    (stop) "st' = (rest, c)" "mx = Some 0 \<or> mn = 0"
  | (round) r1 c1 where "mx \<noteq> Some 0" "0 < mn"
      "(r1, c1) \<in> set (rmatch ic n r (rest, clear (groups r) c))"
      "st' \<in> set (rmatch ic n (Rep (mn - 1) (dec mx) r) (r1, c1))"
  | (extra) r1 c1 where "mx \<noteq> Some 0" "mn = 0"
      "(r1, c1) \<in> set (rmatch ic n r (rest, clear (groups r) c))"
      "length r1 < length rest"
      "st' \<in> set (rmatch ic n (Rep 0 (dec mx) r) (r1, c1))"
proof (cases "mx = Some 0")
  case True
  with assms have "st' = (rest, c)" by (simp add: rmatch_Rep_iff)
  with True stop show ?thesis by simp
next
  case nz: False
  show ?thesis
  proof (cases "0 < mn")
    case True
    with nz assms obtain r1 c1 where
      "(r1, c1) \<in> set (rmatch ic n r (rest, clear (groups r) c))"
      "st' \<in> set (rmatch ic n (Rep (mn - 1) (dec mx) r) (r1, c1))"
      by (subst (asm) rmatch_Rep_iff) auto
    with nz True round show ?thesis by blast
  next
    case False
    with nz assms have "(\<exists>r1 c1. (r1, c1) \<in> set (rmatch ic n r (rest, clear (groups r) c)) \<and>
        length r1 < length rest \<and> st' \<in> set (rmatch ic n (Rep 0 (dec mx) r) (r1, c1)))
        \<or> st' = (rest, c)"
      by (subst (asm) rmatch_Rep_iff) auto
    with nz False stop extra show ?thesis by blast
  qed
qed


text \<open>
  The matcher as a relation: \<open>run ic n r st st'\<close> holds when a match of \<open>r\<close> that starts in
  state \<open>st\<close> can end in state \<open>st'\<close>. Every state that \<open>rmatch\<close> lists is such an end, so
  what holds of every run holds of the match that the engine reports.
\<close>

inductive run :: "bool \<Rightarrow> nat \<Rightarrow> regex \<Rightarrow> mstate \<Rightarrow> mstate \<Rightarrow> bool" for ic :: bool and n :: nat where
  run_Eps: "run ic n Eps st st"
| run_Bol: "length rest = n \<Longrightarrow> run ic n Bol (rest, c) (rest, c)"
| run_Sym: "class_match ic neg as x \<Longrightarrow> run ic n (Sym neg as) (x # xs, c) (xs, c)"
| run_Seq: "run ic n a st st1 \<Longrightarrow> run ic n b st1 st2 \<Longrightarrow> run ic n (Seq a b) st st2"
| run_Alt1: "run ic n a st st' \<Longrightarrow> run ic n (Alt a b) st st'"
| run_Alt2: "run ic n b st st' \<Longrightarrow> run ic n (Alt a b) st st'"
| run_Grp: "run ic n r (rest, c) (rest', c') \<Longrightarrow>
     run ic n (Grp g r) (rest, c) (rest', c'(g \<mapsto> take (length rest - length rest') rest))"
| run_stop: "mx = Some 0 \<or> mn = 0 \<Longrightarrow> run ic n (Rep mn mx r) st st"
| run_round: "mx \<noteq> Some 0 \<Longrightarrow> run ic n r (rest, clear (groups r) c) st1 \<Longrightarrow>
     run ic n (Rep (mn - 1) (dec mx) r) st1 st2 \<Longrightarrow> run ic n (Rep mn mx r) (rest, c) st2"

inductive_cases run_EpsE: "run ic n Eps st st'"
inductive_cases run_BolE: "run ic n Bol st st'"
inductive_cases run_SymE: "run ic n (Sym neg as) st st'"
inductive_cases run_SeqE: "run ic n (Seq a b) st st'"
inductive_cases run_AltE: "run ic n (Alt a b) st st'"
inductive_cases run_GrpE: "run ic n (Grp g r) st st'"
inductive_cases run_RepE: "run ic n (Rep mn mx r) st st'"

lemma rmatch_run: "st' \<in> set (rmatch ic n r st) \<Longrightarrow> run ic n r st st'"
proof (induction ic n r st arbitrary: st' rule: rmatch.induct)
  case (1 ic n st)
  then show ?case by (simp add: run_Eps)
next
  case (2 ic n rest c)
  then show ?case by (simp add: run_Bol split: if_splits)
next
  case (3 ic n neg as rest c)
  then show ?case by (auto simp: run_Sym split: list.splits if_splits)
next
  case (4 ic n a b st)
  from "4.prems" obtain st1 where a: "st1 \<in> set (rmatch ic n a st)"
    and b: "st' \<in> set (rmatch ic n b st1)" by auto
  from "4.IH"(1) [OF a] "4.IH"(2) [OF a b] show ?case by (rule run_Seq)
next
  case (5 ic n a b st)
  then show ?case by (cases st') (auto intro: run_Alt1 run_Alt2)
next
  case (6 ic n g r rest c)
  then show ?case by (auto intro: run_Grp)
next
  case (7 ic n mn mx r rest c)
  from "7.prems" show ?case
  proof (cases rule: rmatch_RepE)
    case stop
    then show ?thesis by (simp add: run_stop)
  next
    case (round r1 c1)
    from "7.IH"(1) [OF round(1,3)] "7.IH"(2) [OF round(1,3) refl round(2,4)] round(1)
    show ?thesis by (rule run_round [rotated])
  next
    case (extra r1 c1)
    from extra(2) have "\<not> 0 < mn" by simp
    from "7.IH"(3) [OF extra(1,3) refl this extra(4,5)] extra(2)
    have "run ic n (Rep (mn - 1) (dec mx) r) (r1, c1) st'" by simp
    with extra(1) "7.IH"(1) [OF extra(1,3)] show ?thesis by (rule run_round)
  qed
qed

text \<open>The least number of units that a match of an expression reads. A run reads a front
  part of the input, leaves the groups of other expressions as they are, and reads at
  least \<open>minlen\<close> units; a repeated character class reads units of that class only.\<close>

fun minlen :: "regex \<Rightarrow> nat" where
  "minlen (Sym neg as) = 1"
| "minlen (Seq a b) = minlen a + minlen b"
| "minlen (Alt a b) = min (minlen a) (minlen b)"
| "minlen (Grp g r) = minlen r"
| "minlen (Rep mn mx r) = (case mx of None \<Rightarrow> mn | Some k \<Rightarrow> min mn k) * minlen r"
| "minlen r = 0"

lemma run_suffix: "run ic n r st st' \<Longrightarrow> \<exists>pre. fst st = pre @ fst st'"
  by (induction rule: run.induct) auto

lemma run_frame: "run ic n r st st' \<Longrightarrow> g \<notin> set (groups r) \<Longrightarrow> snd st' g = snd st g"
  by (induction rule: run.induct) (auto simp: clear_def)

lemma run_minlen: "run ic n r st st' \<Longrightarrow> length (fst st') + minlen r \<le> length (fst st)"
proof (induction rule: run.induct)
  case (run_stop mx mn r st)
  then show ?case by (auto split: option.splits)
next
  case (run_round mx r rest c st1 mn st2)
  have "(case mx of None \<Rightarrow> mn | Some k \<Rightarrow> min mn k)
      \<le> Suc (case dec mx of None \<Rightarrow> mn - Suc 0 | Some k \<Rightarrow> min (mn - Suc 0) k)"
    using run_round(1) by (cases mx) auto
  then have "(case mx of None \<Rightarrow> mn | Some k \<Rightarrow> min mn k) * minlen r
      \<le> Suc (case dec mx of None \<Rightarrow> mn - Suc 0 | Some k \<Rightarrow> min (mn - Suc 0) k) * minlen r"
    by (rule mult_le_mono1)
  with run_round(4,5) show ?case by simp
qed auto

lemma run_class:
  "run ic n (Rep mn mx (Sym neg as)) st st' \<Longrightarrow>
     \<exists>pre. fst st = pre @ fst st' \<and> list_all (class_match ic neg as) pre \<and> snd st' = snd st"
proof (induction "Rep mn mx (Sym neg as)" st st' arbitrary: mn mx rule: run.induct)
  case (run_stop mx mn st)
  then show ?case by simp
next
  case (run_round mx rest c st1 mn st2)
  from run_round(2) obtain x where "rest = x # fst st1" "class_match ic neg as x" "snd st1 = c"
    by (auto elim!: run_SymE simp: clear_def)
  with run_round(4) show ?case by (auto intro: exI [of _ "x # pre" for pre])
qed


text \<open>What \<open>search\<close> reports is the end of a run of the expression, and the text it covers
  is at least as long as the expression's shortest match.\<close>

lemma search_run:
  "search ic n r rest = Some m \<Longrightarrow>
     \<exists>rest0 post. run ic n r (rest0, Map.empty) (post, grp m)
        \<and> whole m = take (length rest0 - length post) rest0
        \<and> (\<exists>pre. rest = pre @ rest0) \<and> index m = n - length rest0"
proof (induction rest)
  case Nil
  then obtain post c sts where r: "rmatch ic n r ([], Map.empty) = (post, c) # sts"
    and m: "m = \<lparr>index = n, whole = [], grp = c\<rparr>"
    by (auto split: list.splits)
  from r have "run ic n r ([], Map.empty) (post, c)" by (intro rmatch_run) simp
  with m show ?case by (intro exI [of _ "[]"] exI [of _ post]) simp
next
  case (Cons x xs)
  show ?case
  proof (cases "rmatch ic n r (x # xs, Map.empty)")
    case Nil
    with Cons.prems have "search ic n r xs = Some m" by simp
    from Cons.IH [OF this] obtain rest0 post pre where
      "run ic n r (rest0, Map.empty) (post, grp m)"
      "whole m = take (length rest0 - length post) rest0" "xs = pre @ rest0"
      "index m = n - length rest0" by blast
    then show ?thesis
      by (intro exI [of _ rest0] exI [of _ post]) (auto intro: exI [of _ "x # pre"])
  next
    case (Cons st sts)
    obtain post c where st: "st = (post, c)" by (cases st)
    with Cons Cons.prems have m: "m = \<lparr>index = n - length (x # xs),
        whole = take (length (x # xs) - length post) (x # xs), grp = c\<rparr>" by simp
    from Cons st have "run ic n r (x # xs, Map.empty) (post, c)" by (intro rmatch_run) simp
    with m show ?thesis by (intro exI [of _ "x # xs"] exI [of _ post]) simp
  qed
qed

lemma search_whole_length:
  assumes "search ic n r rest = Some m"
  shows "minlen r \<le> length (whole m)"
proof -
  from search_run [OF assms] obtain rest0 post where
    r: "run ic n r (rest0, Map.empty) (post, grp m)"
    and w: "whole m = take (length rest0 - length post) rest0" by blast
  from run_minlen [OF r] have "length post + minlen r \<le> length rest0" by simp
  with w show ?thesis by simp
qed

lemma exec_all_search:
  "m \<in> set (exec_all ic r s k) \<Longrightarrow> \<exists>rest. search ic (length s) r rest = Some m"
proof (induction ic r s k rule: exec_all.induct)
  case (1 ic r s lastIndex)
  show ?case
  proof (cases "length s < lastIndex")
    case True
    with "1.prems" show ?thesis by (subst (asm) exec_all.simps) simp
  next
    case False
    show ?thesis
    proof (cases "search ic (length s) r (drop lastIndex s)")
      case None
      with False "1.prems" show ?thesis by (subst (asm) exec_all.simps) simp
    next
      case (Some m0)
      with False "1.prems" have "m = m0 \<or> m \<in> set (exec_all ic r s
          (if whole m0 = [] then index m0 + 1 else index m0 + length (whole m0)))"
        by (subst (asm) exec_all.simps) simp
      with Some "1.IH" [OF False Some] show ?thesis by auto
    qed
  qed
qed

text \<open>A literal reads, unit by unit, a text that matches it.\<close>

lemma lit_Nil: "lit [] = Eps"
  by (simp add: lit_def)

lemma lit_Cons: "lit (a # s) = Seq (Sym False [C a]) (lit s)"
  by (simp add: lit_def)

lemma run_lit:
  "run ic n (lit s) st st' \<Longrightarrow>
     \<exists>w. fst st = w @ fst st' \<and> list_all2 (\<lambda>a x. atom_match ic (C a) x) s w \<and> snd st' = snd st"
proof (induction s arbitrary: st)
  case Nil
  then show ?case by (auto simp: lit_Nil elim: run_EpsE)
next
  case (Cons a s)
  from Cons.prems obtain st1 where 1: "run ic n (Sym False [C a]) st st1"
    and 2: "run ic n (lit s) st1 st'"
    by (auto simp: lit_Cons elim: run_SeqE)
  from 1 obtain x where x: "fst st = x # fst st1" "atom_match ic (C a) x" "snd st1 = snd st"
    by (auto elim!: run_SymE simp: class_match_def)
  from Cons.IH [OF 2] obtain w where "fst st1 = w @ fst st'"
    "list_all2 (\<lambda>a x. atom_match ic (C a) x) s w" "snd st' = snd st1" by blast
  with x show ?case by (intro exI [of _ "x # w"]) simp
qed

lemma same_upper_lower:
  "toUpperChar y = toUpperChar x \<Longrightarrow> isLower y \<Longrightarrow> toLowerChar x = y"
  by (auto simp: toUpperChar_def toLowerChar_def isLower_def isUpper_def split: if_splits)

lemma lit_lower:
  "list_all2 (\<lambda>a x. atom_match True (C a) x) s w \<Longrightarrow> list_all (\<lambda>a. isLower (of_char a)) s \<Longrightarrow>
     asciiLower w = js s"
  by (induction s w rule: list_all2_induct)
     (auto simp: asciiLower_def js_def C_def same_upper_lower)

text \<open>Every capture is a piece of the text that was searched; a group \<^verbatim>\<open>(\d+)\<close> that took
  part in a match holds digits, at least one.\<close>

lemma groups_lit [simp]: "groups (lit s) = []"
  by (induction s) (simp_all add: lit_Nil lit_Cons)

lemma run_caps_subset:
  "run ic n r st st' \<Longrightarrow>
     set (fst st) \<subseteq> S \<and> (\<forall>g w. snd st g = Some w \<longrightarrow> set w \<subseteq> S) \<Longrightarrow>
     set (fst st') \<subseteq> S \<and> (\<forall>g w. snd st' g = Some w \<longrightarrow> set w \<subseteq> S)"
proof (induction rule: run.induct)
  case (run_Eps st)
  then show ?case .
next
  case (run_Bol rest c)
  then show ?case by simp
next
  case (run_Sym neg as x xs c)
  then show ?case by simp
next
  case (run_Seq a st st1 b st2)
  from run_Seq.IH(2) [OF run_Seq.IH(1) [OF run_Seq.prems]] show ?case .
next
  case (run_Alt1 a st st' b)
  from run_Alt1.IH [OF run_Alt1.prems] show ?case .
next
  case (run_Alt2 b st st' a)
  from run_Alt2.IH [OF run_Alt2.prems] show ?case .
next
  case (run_Grp r rest c rest' c' g)
  from run_Grp.IH [OF run_Grp.prems]
  have 1: "set rest' \<subseteq> S" and 2: "\<And>g w. c' g = Some w \<Longrightarrow> set w \<subseteq> S" by auto
  have "set (take (length rest - length rest') rest) \<subseteq> set rest" by (rule set_take_subset)
  with run_Grp.prems have 3: "set (take (length rest - length rest') rest) \<subseteq> S" by auto
  show ?case
  proof (intro conjI allI impI)
    show "set (fst (rest', c'(g \<mapsto> take (length rest - length rest') rest))) \<subseteq> S"
      using 1 by simp
    fix h w
    assume "snd (rest', c'(g \<mapsto> take (length rest - length rest') rest)) h = Some w"
    then have "(h = g \<and> w = take (length rest - length rest') rest) \<or> c' h = Some w"
      by (simp split: if_splits)
    with 2 3 show "set w \<subseteq> S" by blast
  qed
next
  case (run_stop mx mn r st)
  then show ?case by simp
next
  case (run_round mx r rest c st1 mn st2)
  have "set (fst (rest, clear (groups r) c)) \<subseteq> S
      \<and> (\<forall>g w. snd (rest, clear (groups r) c) g = Some w \<longrightarrow> set w \<subseteq> S)"
    using run_round.prems by (simp add: clear_def)
  from run_round.IH(2) [OF run_round.IH(1) [OF this]] show ?case .
qed

lemma re_match_capture_subset:
  assumes "re_match ic r s = Some m" "grp m g = Some w"
  shows "set w \<subseteq> set s"
proof -
  from assms(1) search_run obtain rest0 post pre where
    r: "run ic (length s) r (rest0, Map.empty) (post, grp m)" and s: "s = pre @ rest0"
    unfolding re_match_def by blast
  from run_caps_subset [OF r, of "set s"] s assms(2) show ?thesis by auto
qed

lemma run_digits:
  assumes "run ic n digits (rest, c) (rest', c')"
  shows "\<exists>w. rest = w @ rest' \<and> w \<noteq> [] \<and> list_all isDigit w \<and> c' = c"
proof -
  from assms obtain w where w: "rest = w @ rest'" "list_all (class_match ic False [Dig]) w" "c' = c"
    by (auto simp: digits_def rplus_def cls_def dest: run_class)
  from run_minlen [OF assms] w(1) have "w \<noteq> []"
    by (auto simp: digits_def rplus_def cls_def)
  moreover from w(2) have "list_all isDigit w"
    by (rule list.pred_mono_strong) (simp add: class_match_def)
  ultimately show ?thesis using w by blast
qed

lemma run_Grp_digits:
  assumes "run ic n (Grp g digits) (rest, c) (rest', c')"
  shows "\<exists>w. w \<noteq> [] \<and> list_all isDigit w \<and> c' = c(g \<mapsto> w)"
proof -
  from assms obtain c1 where r: "run ic n digits (rest, c) (rest', c1)"
    and c': "c' = c1(g \<mapsto> take (length rest - length rest') rest)"
    by (auto elim: run_GrpE)
  from run_digits [OF r] obtain w where "rest = w @ rest'" "w \<noteq> []" "list_all isDigit w" "c1 = c"
    by blast
  with c' show ?thesis by auto
qed

lemma run_Seq_Grp_digits:
  assumes "run ic n (Seq (Grp g digits) tail) st st'" "g \<notin> set (groups tail)"
  shows "\<exists>w. w \<noteq> [] \<and> list_all isDigit w \<and> snd st' g = Some w
     \<and> (\<forall>h. h \<noteq> g \<longrightarrow> h \<notin> set (groups tail) \<longrightarrow> snd st' h = snd st h)"
proof -
  from assms(1) obtain st1 where 1: "run ic n (Grp g digits) st st1" and 2: "run ic n tail st1 st'"
    by (auto elim: run_SeqE)
  from 1 run_Grp_digits [of ic n g "fst st" "snd st" "fst st1" "snd st1"]
  obtain w where w: "w \<noteq> []" "list_all isDigit w" "snd st1 = (snd st)(g \<mapsto> w)" by auto
  from run_frame [OF 2] have "\<And>h. h \<notin> set (groups tail) \<Longrightarrow> snd st' h = snd st1 h" by simp
  with w assms(2) show ?thesis by auto
qed

text \<open>Skipping the front of a sequence.\<close>

lemma run_Seq_tail: "run ic n (Seq a b) st st' \<Longrightarrow> \<exists>st1. run ic n b st1 st'"
  by (erule run_SeqE) blast

lemma run_Seq_tail4:
  "run ic n (Seq a (Seq b (Seq c (Seq d e)))) st st' \<Longrightarrow> \<exists>st1. run ic n e st1 st'"
  by (blast dest: run_Seq_tail)

lemma run_seqs_drop:
  "run ic n (seqs (xs @ ys)) st st' \<Longrightarrow> \<exists>st1. run ic n (seqs ys) st1 st'"
proof (induction xs arbitrary: st)
  case Nil
  then show ?case by (cases st) auto
next
  case (Cons x xs)
  from Cons.prems obtain st0 where "run ic n (seqs (xs @ ys)) st0 st'"
    by (auto simp: seqs_def elim: run_SeqE)
  then show ?case by (rule Cons.IH)
qed

section \<open>Evaluating the model\<close>

text \<open>The definitions that the simplifier unfolds to run the model on a given text.\<close>

lemmas regex_defs = lit_def seqs_def rstar_def rplus_def ropt_def cls_def ncls_def ws_def
  digits_def nondigits_def colon_dash_def C_def
lemmas char_defs = isUpper_def isLower_def isDigit_def isSpace_def isWord_def toLowerChar_def
  toUpperChar_def class_match_def clear_def
lemmas string_defs = js_def asciiLower_def includes_str_def slice_def trim_def orElse_def
  truthy_def capture_def
lemmas engine_defs = rmatch.simps(7) re_match_def match_all_def replace_all_def exec_all.simps
lemmas fee_defs = feeHeaders_def feePatterns_def feeStep_def formatFee_def feeTail_def
  currency_def amount_def amountOrNil_def slash_def commaRe_def rupee_def

section \<open>Searching a text\<close>

lemma startsWith_iff: "startsWith s p \<longleftrightarrow> (\<exists>post. s = p @ post)"
  by (induction s p rule: startsWith.induct) auto

lemma indexOf_None_iff: "indexOf s sub = None \<longleftrightarrow> \<not> (\<exists>pre post. s = pre @ sub @ post)"
proof (induction s)
  case Nil
  then show ?case by auto
next
  case (Cons x xs)
  show ?case
  proof (cases "startsWith (x # xs) sub")
    case True
    then obtain post where "x # xs = [] @ sub @ post" by (auto simp: startsWith_iff)
    with True show ?thesis by (metis indexOf.simps(2) option.distinct(1))
  next
    case False
    then have no: "\<And>post. x # xs \<noteq> sub @ post" by (auto simp: startsWith_iff)
    have "(\<exists>pre post. x # xs = pre @ sub @ post) \<longleftrightarrow> (\<exists>pre post. xs = pre @ sub @ post)"
    proof
      assume "\<exists>pre post. x # xs = pre @ sub @ post"
      then obtain pre post where e: "x # xs = pre @ sub @ post" by blast
      with no have "pre \<noteq> []" by auto
      with e obtain pre' where "pre = x # pre'" by (cases pre) auto
      with e show "\<exists>pre post. xs = pre @ sub @ post" by auto
    next
      assume "\<exists>pre post. xs = pre @ sub @ post"
      then obtain pre post where "xs = pre @ sub @ post" by blast
      then have "x # xs = (x # pre) @ sub @ post" by simp
      then show "\<exists>pre post. x # xs = pre @ sub @ post" by blast
    qed
    with False Cons show ?thesis by simp
  qed
qed

lemma includes_str_iff: "includes_str s sub \<longleftrightarrow> (\<exists>pre post. s = pre @ sub @ post)"
  by (simp add: includes_str_def indexOf_None_iff)

text \<open>What a text contains, its lower-cased form contains in lower case.\<close>

lemma lowers_asciiLower: "lowers asciiLower"
proof -
  have "\<exists>pre' post'. asciiLower (pre @ s @ post) = pre' @ asciiLower s @ post'" for pre s post
    by (intro exI [of _ "asciiLower pre"] exI [of _ "asciiLower post"]) (simp add: asciiLower_def)
  then show ?thesis by (simp add: lowers_def)
qed

lemma lowers_ascii: "lowers lc \<Longrightarrow> ascii s \<Longrightarrow> lc s = asciiLower s"
  by (simp add: lowers_def)

lemma lowers_includes:
  assumes "lowers lc" "ascii sub" "includes_str s sub"
  shows "includes_str (lc s) (asciiLower sub)"
proof -
  from assms(3) obtain pre post where "s = pre @ sub @ post"
    by (auto simp: includes_str_iff)
  moreover from assms(1,2) obtain pre' post' where
    "lc (pre @ sub @ post) = pre' @ asciiLower sub @ post'"
    unfolding lowers_def by blast
  ultimately show ?thesis by (auto simp: includes_str_iff)
qed

lemma indexOf_Some:
  "indexOf s sub = Some i \<Longrightarrow>
     startsWith (drop i s) sub \<and> (\<forall>j<i. \<not> startsWith (drop j s) sub) \<and> i \<le> length s"
proof (induction s arbitrary: i)
  case Nil
  then show ?case by (auto split: if_splits)
next
  case (Cons x xs)
  show ?case
  proof (cases "startsWith (x # xs) sub")
    case True
    with Cons.prems show ?thesis by simp
  next
    case False
    with Cons.prems obtain i' where i: "i = Suc i'" "indexOf xs sub = Some i'" by auto
    from Cons.IH [OF i(2)] False i(1) show ?thesis
      by (auto simp: less_Suc_eq_0_disj)
  qed
qed

lemma startsWith_take: "startsWith s p \<Longrightarrow> take (length p) s = p"
  by (auto simp: startsWith_iff)

text \<open>\<open>starts_at ic r s k\<close>: the expression \<open>r\<close> has a match in \<open>s\<close> that starts at index \<open>k\<close>.
  The match that \<open>re_match\<close> reports starts at the least such index.\<close>

definition starts_at :: "bool \<Rightarrow> regex \<Rightarrow> jstring \<Rightarrow> nat \<Rightarrow> bool" where
  "starts_at ic r s k = (rmatch ic (length s) r (drop k s, Map.empty) \<noteq> [])"

lemma search_leftmost:
  "search ic n r rest = Some m \<Longrightarrow>
     (\<exists>k \<le> length rest. index m = n - length rest + k
        \<and> rmatch ic n r (drop k rest, Map.empty) \<noteq> []
        \<and> (\<forall>j<k. rmatch ic n r (drop j rest, Map.empty) = []))"
  if "length rest \<le> n"
  using that
proof (induction rest)
  case Nil
  then show ?case by (auto split: list.splits)
next
  case (Cons x xs)
  show ?case
  proof (cases "rmatch ic n r (x # xs, Map.empty)")
    case Nil
    with Cons.prems have "search ic n r xs = Some m" by simp
    from Cons.IH [OF this] Cons.prems(2) obtain k where k: "k \<le> length xs"
      "index m = n - length xs + k" "rmatch ic n r (drop k xs, Map.empty) \<noteq> []"
      "\<forall>j<k. rmatch ic n r (drop j xs, Map.empty) = []" by auto
    have "\<forall>j<Suc k. rmatch ic n r (drop j (x # xs), Map.empty) = []"
      using k(4) Nil by (auto simp: less_Suc_eq_0_disj)
    with k Cons.prems(2) show ?thesis
      by (intro exI [of _ "Suc k"]) auto
  next
    case (Cons st sts)
    with Cons.prems show ?thesis
      by (intro exI [of _ 0]) (auto split: prod.splits)
  qed
qed

lemma re_match_leftmost:
  assumes "re_match ic r s = Some m"
  shows "index m \<le> length s \<and> starts_at ic r s (index m) \<and> (\<forall>j<index m. \<not> starts_at ic r s j)"
  using search_leftmost [of s "length s" ic r m] assms
  by (auto simp: re_match_def starts_at_def)

section \<open>detectType: the order of the rules\<close>

text \<open>The rules as the specification lists them, each a test on the lower-case text with
  the type it assigns, and their evaluation from the top: the first rule whose test holds
  gives the type, and \<open>Job\<close> is the type when none holds.\<close>

definition typeRules :: "((jstring \<Rightarrow> bool) \<times> JobType) list" where
  "typeRules =
     [(\<lambda>t. includes_str t (js ''admit card'') \<or> includes_str t (js ''hall ticket'')
            \<or> includes_str t (js ''call letter''), AdmitCard),
      (\<lambda>t. includes_str t (js ''result'')
            \<and> (includes_str t (js ''download'') \<or> includes_str t (js ''declared'')
                \<or> includes_str t (js ''out'')), Result),
      (\<lambda>t. includes_str t (js ''answer key''), AnswerKey),
      (\<lambda>t. includes_str t (js ''admission'') \<and> \<not> includes_str t (js ''admit card''),
       Admission)]"

fun firstRule :: "((jstring \<Rightarrow> bool) \<times> JobType) list \<Rightarrow> jstring \<Rightarrow> JobType" where
  "firstRule [] t = Job"
| "firstRule (rule # rules) t = (if fst rule t then snd rule else firstRule rules t)"

lemma lower_admit_card: "asciiLower (js ''admit card'') = js ''admit card''"
  by (simp add: string_defs char_defs)

lemma ascii_admit_card: "ascii (js ''admit card'')"
  by (simp add: ascii_def js_def)

text \<open>
  C4. \<open>detectType\<close> evaluates the keyword rules in the fixed order on the lower-cased
  text, the first true rule giving the type. A text whose lower-cased form contains
  "admit card" and "admission" is classified \<open>AdmitCard\<close>, never \<open>Admission\<close>, and so is a
  text that contains the two as written; a text for which no rule holds is classified
  \<open>Job\<close>.
\<close>

theorem detectType_priority:
  "detectType lc t = firstRule typeRules (lc t)
   \<and> (includes_str (lc u) (js ''admit card'') \<and> includes_str (lc u) (js ''admission'')
        \<longrightarrow> detectType lc u = AdmitCard)
   \<and> (lowers lc \<and> includes_str w (js ''admit card'') \<and> includes_str w (js ''admission'')
        \<longrightarrow> detectType lc w = AdmitCard)
   \<and> (list_all (\<lambda>rule. \<not> fst rule (lc v)) typeRules \<longrightarrow> detectType lc v = Job)"
proof (intro conjI impI)
  show "detectType lc t = firstRule typeRules (lc t)"
    by (auto simp: detectType_def typeRules_def Let_def)
  show "detectType lc u = AdmitCard"
    if "includes_str (lc u) (js ''admit card'') \<and> includes_str (lc u) (js ''admission'')"
    using that by (simp add: detectType_def Let_def)
  show "detectType lc w = AdmitCard"
    if "lowers lc \<and> includes_str w (js ''admit card'') \<and> includes_str w (js ''admission'')"
  proof -
    from that lowers_includes [of lc "js ''admit card''" w]
    have "includes_str (lc w) (js ''admit card'')"
      by (simp add: lower_admit_card ascii_admit_card)
    then show ?thesis by (simp add: detectType_def Let_def)
  qed
  show "detectType lc v = Job" if "list_all (\<lambda>rule. \<not> fst rule (lc v)) typeRules"
    using that by (auto simp: detectType_def typeRules_def Let_def)
qed

theorem detectType_priority_witness:
  "includes_str (asciiLower (js ''Admission notice: Admit Card'')) (js ''admit card'')
   \<and> includes_str (asciiLower (js ''Admission notice: Admit Card'')) (js ''admission'')
   \<and> detectType asciiLower (js ''Admission notice: Admit Card'') = AdmitCard
   \<and> lowers asciiLower
   \<and> includes_str (js ''admission: admit card'') (js ''admit card'')
   \<and> includes_str (js ''admission: admit card'') (js ''admission'')
   \<and> detectType asciiLower (js ''admission: admit card'') = AdmitCard
   \<and> list_all (\<lambda>rule. \<not> fst rule (asciiLower (js ''Clerk posts''))) typeRules
   \<and> detectType asciiLower (js ''Clerk posts'') = Job"
  using detectType_priority
    [of asciiLower "js ''Clerk posts''" "js ''Admission notice: Admit Card''"
        "js ''admission: admit card''" "js ''Clerk posts''"]
    lowers_asciiLower
  by (simp add: typeRules_def string_defs char_defs)

section \<open>extractPhysicalEligibility: no section, no entry\<close>

lemma lower_physical:
  "asciiLower (js ''Physical Eligibility'') = js ''physical eligibility''"
  "asciiLower (js ''PHYSICAL ELIGIBILITY'') = js ''physical eligibility''"
  "asciiLower (js ''Physical Standard'') = js ''physical standard''"
  "asciiLower (js ''PHYSICAL STANDARD'') = js ''physical standard''"
  "asciiLower (js ''Physical Test'') = js ''physical test''"
  by (simp_all add: string_defs char_defs)

lemma ascii_physical: "list_all ascii physicalHeaders"
  by (simp add: physicalHeaders_def ascii_def js_def)

lemma extractSection_absent:
  "list_all (\<lambda>h. \<not> includes_str (lc text) (lc h)) headers \<Longrightarrow>
     extractSection lc text headers = []"
  by (induction headers) (auto simp: includes_str_def)

text \<open>
  C5. When none of "Physical Eligibility", "Physical Standard" and "Physical Test" occurs
  in the text, in any mix of cases (the lower-cased text contains none of them in lower
  case), \<open>extractPhysicalEligibility\<close> returns the empty list: the whole text is never
  searched, whatever height, chest or weight phrases it holds.
\<close>

theorem physical_needs_section:
  "lowers lc \<Longrightarrow>
   \<not> includes_str (lc text) (js ''physical eligibility'') \<Longrightarrow>
   \<not> includes_str (lc text) (js ''physical standard'') \<Longrightarrow>
   \<not> includes_str (lc text) (js ''physical test'') \<Longrightarrow>
   extractPhysicalEligibility lc text = []"
proof -
  assume lc: "lowers lc"
  assume "\<not> includes_str (lc text) (js ''physical eligibility'')"
    "\<not> includes_str (lc text) (js ''physical standard'')"
    "\<not> includes_str (lc text) (js ''physical test'')"
  moreover from ascii_physical have "\<forall>h\<in>set physicalHeaders. lc h = asciiLower h"
    by (auto simp: list_all_iff lowers_ascii [OF lc])
  ultimately have "extractSection lc text physicalHeaders = []"
    by (intro extractSection_absent) (simp add: physicalHeaders_def lower_physical)
  then show ?thesis by (simp add: extractPhysicalEligibility_def)
qed

text \<open>The text "Height: 165 cm" has no such heading; the height expression would match
  it, and the result is empty all the same.\<close>

lemmas physical_defs = heightRe_def chestRe_def weightRe_def decimal_def

theorem physical_needs_section_witness:
  "lowers asciiLower
   \<and> \<not> includes_str (asciiLower (js ''Height: 165 cm'')) (js ''physical eligibility'')
   \<and> \<not> includes_str (asciiLower (js ''Height: 165 cm'')) (js ''physical standard'')
   \<and> \<not> includes_str (asciiLower (js ''Height: 165 cm'')) (js ''physical test'')
   \<and> map_option whole (re_match True heightRe (js ''Height: 165 cm'')) = Some (js ''Height: 165 cm'')
   \<and> extractPhysicalEligibility asciiLower (js ''Height: 165 cm'') = []"
proof -
  have a: "\<not> includes_str (asciiLower (js ''Height: 165 cm'')) (js ''physical eligibility'')"
    and b: "\<not> includes_str (asciiLower (js ''Height: 165 cm'')) (js ''physical standard'')"
    and c: "\<not> includes_str (asciiLower (js ''Height: 165 cm'')) (js ''physical test'')"
    by (simp_all add: string_defs char_defs)
  have "map_option whole (re_match True heightRe (js ''Height: 165 cm'')) = Some (js ''Height: 165 cm'')"
    by (simp add: physical_defs regex_defs char_defs string_defs engine_defs)
  with a b c physical_needs_section [OF lowers_asciiLower a b c] lowers_asciiLower
  show ?thesis by simp
qed

section \<open>The total of the posts\<close>





text \<open>The numeric value of a vacancy entry, as the claim words it: the integer read from
  \<open>totalPost\<close>, and 0 when the text is not numeric.\<close>

definition postValue :: "VacancyEntry \<Rightarrow> int" where
  "postValue v = (case mathInt (totalPost v) of None \<Rightarrow> 0 | Some k \<Rightarrow> k)"








lemmas number_defs = totalPosts_def postCount_def postValue_def parseInt_def orZero_def
  mathInt_def isDigitOf_def numeral_value_def digitValue_def



section \<open>extractFees: overlapping categories\<close>

text \<open>
  C10. The patterns of "General/EWS/OBC" and of "General" overlap, and an entry is dropped
  only when its own category is already present: for the text "General: Rs. 100"
  \<open>extractFees\<close> returns two entries, one per category, with the same fee. Both patterns
  match the same piece of the text, from index 0, and capture the same "100".
\<close>

theorem extractFees_overlap:
  "extractFees asciiLower (js ''General: Rs. 100'') =
     [\<lparr>FeeEntry.category = js ''General/EWS/OBC'', fee = rupee # js ''100/-''\<rparr>,
      \<lparr>FeeEntry.category = js ''General'', fee = rupee # js ''100/-''\<rparr>]
   \<and> map (\<lambda>p. map_option (\<lambda>m. (index m, whole m, grp m 1))
               (re_match True (fst p) (js ''General: Rs. 100''))) (take 2 feePatterns)
     = [Some (0, js ''General: Rs. 100'', Some (js ''100'')),
        Some (0, js ''General: Rs. 100'', Some (js ''100''))]
   \<and> map snd (take 2 feePatterns) = [js ''General/EWS/OBC'', js ''General'']"
proof (intro conjI)
  show "extractFees asciiLower (js ''General: Rs. 100'') =
     [\<lparr>FeeEntry.category = js ''General/EWS/OBC'', fee = rupee # js ''100/-''\<rparr>,
      \<lparr>FeeEntry.category = js ''General'', fee = rupee # js ''100/-''\<rparr>]"
    unfolding extractFees_def Let_def
    by (simp add: fee_defs regex_defs char_defs string_defs engine_defs)
  show "map (\<lambda>p. map_option (\<lambda>m. (index m, whole m, grp m 1))
               (re_match True (fst p) (js ''General: Rs. 100''))) (take 2 feePatterns)
     = [Some (0, js ''General: Rs. 100'', Some (js ''100'')),
        Some (0, js ''General: Rs. 100'', Some (js ''100''))]"
    by (simp add: fee_defs regex_defs char_defs string_defs engine_defs)
  show "map snd (take 2 feePatterns) = [js ''General/EWS/OBC'', js ''General'']"
    by (simp add: feePatterns_def)
qed

section \<open>extractSection: where the section ends\<close>

text \<open>The section as the claim words it: from the end of the matched header to the first
  next-section marker, and the first 1500 units when there is no marker.\<close>

definition claimedSection :: "jstring \<Rightarrow> jstring \<Rightarrow> nat \<Rightarrow> jstring" where
  "claimedSection text header idx =
     (let startIdx = idx + length header in
      case re_match False nextSection (drop startIdx text) of
        None \<Rightarrow> slice text startIdx (startIdx + 1500)
      | Some m \<Rightarrow> slice text startIdx (startIdx + index m))"

definition notice1 :: jstring where
  "notice1 = js ''Age Limit'' @ [10] @ js ''18 to 27 years'' @ [10] @ js ''IMPORTANT DATES:''"

definition notice2 :: jstring where
  "notice2 = js ''Age Limit'' @ [10] @ js ''IMPORTANT DATES:'' @ [10] @ js ''18 to 27 years''"

definition notice3 :: jstring where
  "notice3 = js ''Age Limit: 18 to 27 years''"

lemmas section_defs = nextSection_def claimedSection_def notice1_def notice2_def notice3_def

text \<open>
  C1, as stated, does not hold. In \<open>notice1\<close> the header "Age Limit" is followed by a line
  break, the line "18 to 27 years" and the marker: the text between header and marker starts
  with the line break, and \<open>extractSection\<close> returns it trimmed. In \<open>notice2\<close> the marker
  follows the header at once: the text between them is empty, and \<open>extractSection\<close> returns
  what follows, the marker included.
\<close>

theorem extractSection_counterexample:
  "indexOf (asciiLower notice1) (asciiLower (js ''Age Limit'')) = Some 0
   \<and> claimedSection notice1 (js ''Age Limit'') 0 = [10] @ js ''18 to 27 years''
   \<and> extractSection asciiLower notice1 [js ''Age Limit''] = js ''18 to 27 years''
   \<and> extractSection asciiLower notice1 [js ''Age Limit'']
       \<noteq> claimedSection notice1 (js ''Age Limit'') 0
   \<and> indexOf (asciiLower notice2) (asciiLower (js ''Age Limit'')) = Some 0
   \<and> claimedSection notice2 (js ''Age Limit'') 0 = []
   \<and> extractSection asciiLower notice2 [js ''Age Limit'']
       = js ''IMPORTANT DATES:'' @ [10] @ js ''18 to 27 years''"
  unfolding claimedSection_def Let_def
  by (simp add: section_defs regex_defs char_defs string_defs engine_defs)

lemma length_trim: "length (trim s) \<le> length s"
proof -
  have "length (dropWhile isSpace (rev (dropWhile isSpace s))) \<le> length (rev (dropWhile isSpace s))"
    by (rule length_dropWhile_le)
  also have "\<dots> \<le> length s" by (simp add: length_dropWhile_le)
  finally show ?thesis by (simp add: trim_def)
qed

lemma extractSection_found:
  assumes "find (\<lambda>h. includes_str (lc text) (lc h)) headers = Some header"
    and "indexOf (lc text) (lc header) = Some idx"
  shows "extractSection lc text headers =
     trim (slice text (idx + length header)
       (min (case re_match False nextSection (drop (idx + length header) text) of
               None \<Rightarrow> idx + length header + 1000
             | Some m \<Rightarrow> idx + length header + (if index m = 0 then 500 else index m))
            (idx + length header + 1500)))"
  using assms
proof (induction headers)
  case Nil
  then show ?case by simp
next
  case (Cons h hs)
  show ?case
  proof (cases "includes_str (lc text) (lc h)")
    case True
    with Cons.prems have "h = header" by simp
    with Cons.prems(2) show ?thesis by (simp add: Let_def)
  next
    case False
    with Cons show ?thesis by (simp add: includes_str_def)
  qed
qed

text \<open>
  C1, amended. Let \<open>header\<close> be the first header of the list whose lower-cased form occurs
  in the lower-cased text, and \<open>idx\<close> the index of its first occurrence there. On an ASCII
  text that is where the header occurs in the text itself, in some mix of cases. Then
  \<open>extractSection\<close> returns, trimmed of white space at both ends, the text that starts at
  \<open>idx\<close> plus the length of the header, the end of that occurrence, and ends: at the first
  next-section marker, when that marker starts at a positive offset (the leftmost start of
  a match of \<open>nextSection\<close>), and 1500 units on when the marker is further away; 1000 units
  on when there is no marker. The result is never longer than 1500 units. (A marker at
  offset 0 is not covered.)
\<close>

theorem extractSection_section:
  assumes "find (\<lambda>h. includes_str (lc text) (lc h)) headers = Some header"
    and "indexOf (lc text) (lc header) = Some idx"
  shows "take (length (lc header)) (drop idx (lc text)) = lc header
    \<and> (lowers lc \<and> ascii text \<and> ascii header \<longrightarrow>
         asciiLower (slice text idx (idx + length header)) = asciiLower header)
    \<and> (re_match False nextSection (drop (idx + length header) text) = None \<longrightarrow>
         extractSection lc text headers =
           trim (slice text (idx + length header) (idx + length header + 1000)))
    \<and> (\<forall>m. re_match False nextSection (drop (idx + length header) text) = Some m \<and> 0 < index m
         \<longrightarrow> extractSection lc text headers =
               trim (slice text (idx + length header) (idx + length header + min (index m) 1500))
             \<and> starts_at False nextSection (drop (idx + length header) text) (index m)
             \<and> (\<forall>j<index m. \<not> starts_at False nextSection (drop (idx + length header) text) j))
    \<and> length (extractSection lc text headers) \<le> 1500"
proof (intro conjI impI allI)
  note found = extractSection_found [OF assms]
  from indexOf_Some [OF assms(2)]
  show occ: "take (length (lc header)) (drop idx (lc text)) = lc header"
    by (intro startsWith_take) simp
  show "asciiLower (slice text idx (idx + length header)) = asciiLower header"
    if "lowers lc \<and> ascii text \<and> ascii header"
  proof -
    from that have "lc text = asciiLower text" "lc header = asciiLower header"
      by (simp_all add: lowers_ascii)
    with occ have "take (length header) (drop idx (map toLowerChar text)) = map toLowerChar header"
      by (simp add: asciiLower_def)
    then show ?thesis by (simp add: asciiLower_def slice_def take_map drop_map)
  qed
  show "extractSection lc text headers =
      trim (slice text (idx + length header) (idx + length header + 1000))"
    if "re_match False nextSection (drop (idx + length header) text) = None"
    using that found by simp
  show "extractSection lc text headers =
      trim (slice text (idx + length header) (idx + length header + min (index m) 1500))"
    if "re_match False nextSection (drop (idx + length header) text) = Some m \<and> 0 < index m" for m
    using that found by (simp add: min_def)
  show "starts_at False nextSection (drop (idx + length header) text) (index m)"
    if "re_match False nextSection (drop (idx + length header) text) = Some m \<and> 0 < index m" for m
    using that re_match_leftmost by blast
  show "\<not> starts_at False nextSection (drop (idx + length header) text) j"
    if "re_match False nextSection (drop (idx + length header) text) = Some m \<and> 0 < index m"
      and "j < index m" for m j
    using that re_match_leftmost by blast
  have "length (extractSection lc text headers) \<le> length (slice text (idx + length header)
       (min (case re_match False nextSection (drop (idx + length header) text) of
               None \<Rightarrow> idx + length header + 1000
             | Some m \<Rightarrow> idx + length header + (if index m = 0 then 500 else index m))
            (idx + length header + 1500)))"
    unfolding found by (rule length_trim)
  also have "\<dots> \<le> 1500" by (simp add: slice_def)
  finally show "length (extractSection lc text headers) \<le> 1500" .
qed

theorem extractSection_section_witness:
  "find (\<lambda>h. includes_str (asciiLower notice1) (asciiLower h)) ageHeaders = Some (js ''Age Limit'')
   \<and> indexOf (asciiLower notice1) (asciiLower (js ''Age Limit'')) = Some 0
   \<and> lowers asciiLower \<and> ascii notice1 \<and> ascii (js ''Age Limit'')
   \<and> asciiLower (slice notice1 0 9) = asciiLower (js ''Age Limit'')
   \<and> map_option index (re_match False nextSection (drop 9 notice1)) = Some 15
   \<and> extractSection asciiLower notice1 ageHeaders = trim (slice notice1 9 24)
   \<and> trim (slice notice1 9 24) = js ''18 to 27 years''
   \<and> find (\<lambda>h. includes_str (asciiLower notice3) (asciiLower h)) ageHeaders = Some (js ''Age Limit'')
   \<and> indexOf (asciiLower notice3) (asciiLower (js ''Age Limit'')) = Some 0
   \<and> re_match False nextSection (drop 9 notice3) = None
   \<and> extractSection asciiLower notice3 ageHeaders = trim (slice notice3 9 1009)"
proof -
  have f1: "find (\<lambda>h. includes_str (asciiLower notice1) (asciiLower h)) ageHeaders
      = Some (js ''Age Limit'')"
    and i1: "indexOf (asciiLower notice1) (asciiLower (js ''Age Limit'')) = Some 0"
    and f3: "find (\<lambda>h. includes_str (asciiLower notice3) (asciiLower h)) ageHeaders
      = Some (js ''Age Limit'')"
    and i3: "indexOf (asciiLower notice3) (asciiLower (js ''Age Limit'')) = Some 0"
    by (simp_all add: ageHeaders_def section_defs char_defs string_defs)
  have asc: "ascii notice1" "ascii (js ''Age Limit'')"
    by (simp_all add: ascii_def notice1_def js_def)
  have len: "length (js ''Age Limit'') = 9" by (simp add: js_def)
  have m1: "map_option index (re_match False nextSection (drop 9 notice1)) = Some 15"
    by (simp add: section_defs regex_defs char_defs string_defs engine_defs)
  then obtain m where m: "re_match False nextSection (drop 9 notice1) = Some m" "index m = 15"
    by auto
  have m3: "re_match False nextSection (drop 9 notice3) = None"
    by (simp add: section_defs regex_defs char_defs string_defs engine_defs)
  have t1: "trim (slice notice1 9 24) = js ''18 to 27 years''"
    by (simp add: section_defs char_defs string_defs)
  note inst1 = extractSection_section [OF f1 i1]
  from inst1 m have "extractSection asciiLower notice1 ageHeaders = trim (slice notice1 9 24)"
    by (simp add: len)
  moreover from inst1 asc lowers_asciiLower
  have "asciiLower (slice notice1 0 9) = asciiLower (js ''Age Limit'')"
    by (simp add: len)
  moreover from extractSection_section [OF f3 i3] m3
  have "extractSection asciiLower notice3 ageHeaders = trim (slice notice3 9 1009)"
    by (simp add: len)
  ultimately show ?thesis using f1 i1 m1 t1 f3 i3 m3 asc lowers_asciiLower by simp
qed


section \<open>extractLinks: one bucket for each link\<close>

lemma minlen_urlRegex: "minlen urlRegex = 8"
  by (simp add: urlRegex_def regex_defs)

lemma allUrls_nonempty: "url \<in> set (allUrls text) \<Longrightarrow> url \<noteq> []"
proof -
  assume "url \<in> set (allUrls text)"
  then obtain m where "m \<in> set (exec_all True urlRegex text 0)" "url = whole m"
    by (auto simp: allUrls_def match_all_def)
  with exec_all_search obtain rest where "search True (length text) urlRegex rest = Some m"
    by blast
  from search_whole_length [OF this] \<open>url = whole m\<close> show ?thesis
    by (auto simp: minlen_urlRegex)
qed

text \<open>The six buckets, and the bucket of a link as the specification gives it: the first
  keyword check that succeeds on the lower-cased link, in the fixed order. \<open>link b\<close> reads
  the field of bucket \<open>b\<close>.\<close>

datatype Bucket = ApplyOnlineLink | NotificationLink | AdmitCardLink | ResultLink
  | AnswerKeyLink | OfficialWebsiteLink

definition bucket :: "lowering \<Rightarrow> jstring \<Rightarrow> Bucket option" where
  "bucket lc url =
     (let l = lc url in
      if includes_str l (js ''apply'') \<or> includes_str l (js ''registration'')
      then Some ApplyOnlineLink
      else if includes_str l (js ''notification'') \<or> includes_str l (js ''pdf'')
      then Some NotificationLink
      else if includes_str l (js ''admit'') \<or> includes_str l (js ''hall-ticket'')
      then Some AdmitCardLink
      else if includes_str l (js ''result'') then Some ResultLink
      else if includes_str l (js ''answer'') \<or> includes_str l (js ''key'')
      then Some AnswerKeyLink
      else if includes_str l (js ''gov.in'') \<or> includes_str l (js ''nic.in'')
      then Some OfficialWebsiteLink
      else None)"

fun link :: "Bucket \<Rightarrow> Links \<Rightarrow> jstring option" where
  "link ApplyOnlineLink ls = applyOnlineUrl ls"
| "link NotificationLink ls = notificationUrl ls"
| "link AdmitCardLink ls = admitCardUrl ls"
| "link ResultLink ls = resultUrl ls"
| "link AnswerKeyLink ls = answerKeyUrl ls"
| "link OfficialWebsiteLink ls = officialWebsiteUrl ls"

lemma link_linkStep:
  "link b (linkStep lc ls url) =
     (if bucket lc url = Some b \<and> falsy (link b ls) then Some url else link b ls)"
  by (cases b) (simp_all add: linkStep_def bucket_def Let_def)

lemma link_foldl:
  "list_all (\<lambda>u. u \<noteq> []) urls \<Longrightarrow>
   link b (foldl (linkStep lc) ls urls) =
     (if falsy (link b ls)
      then (case find (\<lambda>u. bucket lc u = Some b) urls of None \<Rightarrow> link b ls | Some u \<Rightarrow> Some u)
      else link b ls)"
proof (induction urls arbitrary: ls)
  case Nil
  then show ?case by simp
next
  case (Cons u us)
  then show ?case by (auto simp: link_linkStep falsy_def split: option.splits)
qed

lemma link_extractLinks:
  "link b (extractLinks lc text) = find (\<lambda>url. bucket lc url = Some b) (allUrls text)"
proof -
  have "list_all (\<lambda>u. u \<noteq> []) (allUrls text)"
    by (auto simp: list_all_iff dest: allUrls_nonempty)
  moreover have "link b noLinks = None"
    by (cases b) (simp_all add: noLinks_def)
  ultimately show ?thesis
    by (simp add: extractLinks_def link_foldl falsy_def split: option.splits)
qed

lemma find_Some_set: "find P xs = Some x \<Longrightarrow> x \<in> set xs"
  by (induction xs) (auto split: if_splits)

lemma link_nonempty: "link b (extractLinks lc text) \<noteq> Some []"
proof
  assume "link b (extractLinks lc text) = Some []"
  then have "find (\<lambda>url. bucket lc url = Some b) (allUrls text) = Some []"
    by (simp add: link_extractLinks)
  then have "[] \<in> set (allUrls text)" by (rule find_Some_set)
  with allUrls_nonempty show False by blast
qed

definition links_example :: jstring where
  "links_example = js ''https://ssc.nic.in/apply-online https://ssc.nic.in/notification.pdf''"

lemma links_example_urls:
  "allUrls links_example
     = [js ''https://ssc.nic.in/apply-online'', js ''https://ssc.nic.in/notification.pdf'']"
  by (simp add: allUrls_def links_example_def urlRegex_def regex_defs char_defs string_defs
      engine_defs)

text \<open>
  C7. Every link of the document goes to at most one bucket, the one of the first keyword
  check that succeeds in the fixed order, and a bucket keeps the first of its links in
  document order: the field of bucket \<open>b\<close> is the first link whose bucket is \<open>b\<close>, and is
  absent when there is none. For the text with the links
  \<^verbatim>\<open>https://ssc.nic.in/apply-online\<close> and \<^verbatim>\<open>https://ssc.nic.in/notification.pdf\<close> the
  first is \<open>applyOnlineUrl\<close>, the second \<open>notificationUrl\<close>, and \<open>officialWebsiteUrl\<close> is
  absent.
\<close>

theorem extractLinks_first:
  "link b (extractLinks lc text) = find (\<lambda>url. bucket lc url = Some b) (allUrls text)
   \<and> allUrls links_example
       = [js ''https://ssc.nic.in/apply-online'', js ''https://ssc.nic.in/notification.pdf'']
   \<and> applyOnlineUrl (extractLinks asciiLower links_example) = Some (js ''https://ssc.nic.in/apply-online'')
   \<and> notificationUrl (extractLinks asciiLower links_example)
       = Some (js ''https://ssc.nic.in/notification.pdf'')
   \<and> officialWebsiteUrl (extractLinks asciiLower links_example) = None"
proof (intro conjI)
  show "link b (extractLinks lc text) = find (\<lambda>url. bucket lc url = Some b) (allUrls text)"
    by (rule link_extractLinks)
  show "allUrls links_example
       = [js ''https://ssc.nic.in/apply-online'', js ''https://ssc.nic.in/notification.pdf'']"
    by (rule links_example_urls)
  show "applyOnlineUrl (extractLinks asciiLower links_example) = Some (js ''https://ssc.nic.in/apply-online'')"
    "notificationUrl (extractLinks asciiLower links_example)
       = Some (js ''https://ssc.nic.in/notification.pdf'')"
    "officialWebsiteUrl (extractLinks asciiLower links_example) = None"
    unfolding extractLinks_def links_example_urls
    by (simp_all add: linkStep_def noLinks_def falsy_def Let_def char_defs string_defs)
qed

section \<open>extractFees: the format of a fee\<close>

text \<open>Replacing every comma by nothing removes the commas.\<close>

lemma rmatch_commaRe:
  "rmatch False n commaRe (rest, c) = (case rest of [] \<Rightarrow> [] | x # xs \<Rightarrow> if x = 44 then [(xs, c)] else [])"
  by (cases rest) (auto simp: commaRe_def lit_def C_def class_match_def)

lemma search_commaRe:
  "search False n commaRe rest =
     (case dropWhile (\<lambda>c. c \<noteq> 44) rest of
        [] \<Rightarrow> None
      | y # ys \<Rightarrow> Some \<lparr>index = n - length (y # ys), whole = [44], grp = Map.empty\<rparr>)"
proof (induction rest)
  case Nil
  show ?case by (simp add: rmatch_commaRe)
next
  case (Cons x xs)
  then show ?case by (simp add: rmatch_commaRe)
qed

lemma splice_commaRe:
  "k \<le> length s \<Longrightarrow>
     splice s k (exec_all False commaRe s k) [] = filter (\<lambda>c. c \<noteq> 44) (drop k s)"
proof (induction "length s - k" arbitrary: k rule: less_induct)
  case less
  let ?p = "\<lambda>c::nat. c \<noteq> 44"
  show ?case
  proof (cases "dropWhile ?p (drop k s)")
    case Nil
    then have all: "\<forall>c\<in>set (drop k s). c \<noteq> 44" by simp
    from less.prems have "exec_all False commaRe s k = []"
      by (subst exec_all.simps) (simp add: search_commaRe Nil)
    with all show ?thesis by (simp add: filter_id_conv)
  next
    case (Cons y ys)
    define tw where "tw = takeWhile ?p (drop k s)"
    have "hd (dropWhile ?p (drop k s)) = 44"
      using hd_dropWhile [of ?p "drop k s"] Cons by auto
    with Cons have y: "y = 44" by simp
    have "drop k s = takeWhile ?p (drop k s) @ dropWhile ?p (drop k s)" by simp
    then have split: "drop k s = tw @ 44 # ys" by (simp only: Cons y tw_def)
    have tw: "filter ?p tw = tw"
      unfolding tw_def by (simp add: filter_id_conv) (auto dest: set_takeWhileD)
    have "length (drop k s) = length (tw @ 44 # ys)" by (simp only: split)
    with less.prems have lens: "length s = k + length tw + Suc (length ys)" by simp
    define j where "j = k + length tw"
    from lens have idx: "length s - Suc (length ys) = j" by (simp add: j_def)
    have ex: "exec_all False commaRe s k =
        \<lparr>index = j, whole = [44], grp = Map.empty\<rparr> # exec_all False commaRe s (Suc j)"
      using less.prems by (subst exec_all.simps) (simp add: search_commaRe Cons idx)
    have "drop (Suc j) s = drop (Suc (length tw)) (drop k s)" by (simp add: j_def ac_simps)
    also have "\<dots> = drop (Suc (length tw)) (tw @ 44 # ys)" by (simp only: split)
    finally have d: "drop (Suc j) s = ys" by simp
    have "slice s k j = take (length tw) (drop k s)" by (simp add: slice_def j_def)
    also have "\<dots> = take (length tw) (tw @ 44 # ys)" by (simp only: split)
    finally have sl: "slice s k j = tw" by simp
    have ih: "splice s (Suc j) (exec_all False commaRe s (Suc j)) [] = filter ?p (drop (Suc j) s)"
      using lens by (intro less.hyps) (simp_all add: j_def)
    have "filter ?p (drop k s) = filter ?p (tw @ 44 # ys)" by (simp only: split)
    also have "\<dots> = tw @ filter ?p ys" by (simp add: tw)
    finally have f: "filter ?p (drop k s) = tw @ filter ?p ys" .
    show ?thesis by (simp add: ex sl ih d f)
  qed
qed

lemma replace_all_commaRe: "replace_all False commaRe s [] = filter (\<lambda>c. c \<noteq> 44) s"
  using splice_commaRe [of 0 s] by (simp add: replace_all_def)

text \<open>What the capture group of a fee expression can hold: a text of digits and commas
  that is not empty, or "nil" or "exempted" in any mix of cases.\<close>

lemma run_feeTail:
  assumes "run ic n (Seq p (feeTail cap)) st (post, c')"
  shows "\<exists>w c1 c2. c' 1 = Some w \<and> run ic n cap (w @ post, c1) (post, c2)"
proof -
  from assms obtain rest1 c1 c2 where r: "run ic n cap (rest1, c1) (post, c2)"
    and c': "c' = c2(1 \<mapsto> take (length rest1 - length post) rest1)"
    by (auto simp: feeTail_def seqs_def elim!: run_SeqE run_GrpE run_EpsE)
  from run_suffix [OF r] obtain w where "rest1 = w @ post" by auto
  with r c' show ?thesis by auto
qed

lemma comma_only: "toUpperChar 44 = toUpperChar x \<Longrightarrow> x = 44"
  by (auto simp: toUpperChar_def isLower_def split: if_splits)

lemma run_amount:
  assumes "run True n amount (w @ post, c1) (post, c2)"
  shows "w \<noteq> [] \<and> list_all (\<lambda>c. isDigit c \<or> c = 44) w"
proof -
  from run_minlen [OF assms] have "w \<noteq> []"
    by (auto simp: amount_def rplus_def cls_def)
  moreover from assms obtain pre where "w @ post = pre @ post"
    "list_all (class_match True False [Dig, C CHR '','']) pre"
    by (auto simp: amount_def rplus_def cls_def dest: run_class)
  then have "list_all (class_match True False [Dig, C CHR '','']) w" by simp
  then have "list_all (\<lambda>c. isDigit c \<or> c = 44) w"
    by (rule list.pred_mono_strong) (auto simp: class_match_def C_def dest: comma_only)
  ultimately show ?thesis by simp
qed

lemma run_amountOrNil:
  assumes "run True n amountOrNil (w @ post, c1) (post, c2)"
  shows "(w \<noteq> [] \<and> list_all (\<lambda>c. isDigit c \<or> c = 44) w)
     \<or> asciiLower w = js ''nil'' \<or> asciiLower w = js ''exempted''"
proof -
  from assms consider "run True n amount (w @ post, c1) (post, c2)"
    | "run True n (lit ''nil'') (w @ post, c1) (post, c2)"
    | "run True n (lit ''exempted'') (w @ post, c1) (post, c2)"
    by (auto simp: amountOrNil_def elim!: run_AltE)
  then show ?thesis
  proof cases
    case 1
    then show ?thesis by (simp add: run_amount)
  next
    case 2
    from run_lit [OF this] have "list_all2 (\<lambda>a x. atom_match True (C a) x) ''nil'' w" by auto
    then have "asciiLower w = js ''nil''" by (rule lit_lower) (simp add: isLower_def)
    then show ?thesis by simp
  next
    case 3
    from run_lit [OF this] have "list_all2 (\<lambda>a x. atom_match True (C a) x) ''exempted'' w" by auto
    then have "asciiLower w = js ''exempted''" by (rule lit_lower) (simp add: isLower_def)
    then show ?thesis by simp
  qed
qed

lemma feePatterns_shape:
  "p \<in> set feePatterns \<Longrightarrow>
     \<exists>pre cap. fst p = Seq pre (feeTail cap) \<and> (cap = amount \<or> cap = amountOrNil)"
  by (auto simp: feePatterns_def)

lemma ascii_asciiLower: "ascii (asciiLower w) \<Longrightarrow> ascii w"
  by (induction w) (auto simp: ascii_def asciiLower_def toLowerChar_def isUpper_def split: if_splits)

lemma fee_capture:
  assumes "p \<in> set feePatterns" "re_match True (fst p) s = Some m"
  shows "\<exists>w. grp m 1 = Some w \<and> w \<noteq> [] \<and> ascii w
     \<and> (list_all (\<lambda>c. isDigit c \<or> c = 44) w
         \<or> asciiLower w = js ''nil'' \<or> asciiLower w = js ''exempted'')"
proof -
  from feePatterns_shape [OF assms(1)] obtain pre cap where
    p: "fst p = Seq pre (feeTail cap)" and cap: "cap = amount \<or> cap = amountOrNil" by blast
  from assms(2) search_run obtain rest0 post where
    "run True (length s) (fst p) (rest0, Map.empty) (post, grp m)"
    unfolding re_match_def by blast
  with p run_feeTail obtain w c1 c2 where w: "grp m 1 = Some w"
    and r: "run True (length s) cap (w @ post, c1) (post, c2)" by metis
  from cap r consider "w \<noteq> []" "list_all (\<lambda>c. isDigit c \<or> c = 44) w"
    | "asciiLower w = js ''nil''" | "asciiLower w = js ''exempted''"
    by (auto dest: run_amount run_amountOrNil)
  then have "w \<noteq> [] \<and> ascii w
     \<and> (list_all (\<lambda>c. isDigit c \<or> c = 44) w
         \<or> asciiLower w = js ''nil'' \<or> asciiLower w = js ''exempted'')"
  proof cases
    case 1
    from 1(2) have "ascii w"
      by (auto simp: ascii_def list_all_iff isDigit_def)
    with 1 show ?thesis by simp
  next
    case 2
    then have "ascii (asciiLower w)" by (simp add: ascii_def js_def)
    then have "ascii w" by (rule ascii_asciiLower)
    moreover from 2 have "w \<noteq> []" by (auto simp: asciiLower_def js_def)
    ultimately show ?thesis using 2 by simp
  next
    case 3
    then have "ascii (asciiLower w)" by (simp add: ascii_def js_def)
    then have "ascii w" by (rule ascii_asciiLower)
    moreover from 3 have "w \<noteq> []" by (auto simp: asciiLower_def js_def)
    ultimately show ?thesis using 3 by simp
  qed
  with w show ?thesis by blast
qed

text \<open>The entry that a pattern contributes: none when it does not match, and otherwise its
  category with the formatted capture.\<close>

definition feeOf :: "lowering \<Rightarrow> jstring \<Rightarrow> regex \<times> jstring \<Rightarrow> FeeEntry list" where
  "feeOf lc s p =
     (case re_match True (fst p) s of
        None \<Rightarrow> []
      | Some m \<Rightarrow> [\<lparr>FeeEntry.category = snd p, fee = formatFee lc (capture m 1)\<rparr>])"

lemma feeStep_feeOf:
  assumes "p \<in> set feePatterns" "\<forall>f\<in>set fees. FeeEntry.category f \<noteq> snd p"
  shows "feeStep lc s fees p = fees @ feeOf lc s p"
proof (cases "re_match True (fst p) s")
  case None
  then show ?thesis by (simp add: feeStep_def feeOf_def)
next
  case (Some m)
  from fee_capture [OF assms(1) Some] have "truthy (grp m 1)"
    by (auto simp: truthy_def)
  moreover from assms(2) have "find (\<lambda>f. FeeEntry.category f = snd p) fees = None"
    by (simp add: find_None_iff)
  ultimately show ?thesis using Some by (simp add: feeStep_def feeOf_def)
qed

lemma category_feeOf: "f \<in> set (feeOf lc s p) \<Longrightarrow> FeeEntry.category f = snd p"
  by (auto simp: feeOf_def split: option.splits)

lemma foldl_feeStep_feeOf:
  assumes "set ps \<subseteq> set feePatterns" "distinct (map snd ps)"
    and "\<forall>f\<in>set fees. FeeEntry.category f \<notin> snd ` set ps"
  shows "foldl (feeStep lc s) fees ps = fees @ concat (map (feeOf lc s) ps)"
  using assms
proof (induction ps arbitrary: fees)
  case Nil
  then show ?case by simp
next
  case (Cons p ps)
  from Cons.prems have step: "feeStep lc s fees p = fees @ feeOf lc s p"
    by (intro feeStep_feeOf) auto
  from Cons.prems(2) have d: "snd p \<notin> snd ` set ps" by simp
  have "FeeEntry.category f \<notin> snd ` set ps" if "f \<in> set (fees @ feeOf lc s p)" for f
  proof (cases "f \<in> set fees")
    case True
    with Cons.prems(3) show ?thesis by simp
  next
    case False
    with that have "FeeEntry.category f = snd p" by (auto dest: category_feeOf)
    with d show ?thesis by simp
  qed
  then have "\<forall>f\<in>set (fees @ feeOf lc s p). FeeEntry.category f \<notin> snd ` set ps" by blast
  with Cons.IH [of "fees @ feeOf lc s p"] Cons.prems(1,2) step show ?case by simp
qed

lemma distinct_feePatterns: "distinct (map snd feePatterns)"
  by (simp add: feePatterns_def js_def)

lemma extractFees_feeOf:
  "extractFees lc text
     = concat (map (feeOf lc (orElse (extractSection lc text feeHeaders) text)) feePatterns)"
  using foldl_feeStep_feeOf [of feePatterns "[]" lc] distinct_feePatterns
  by (simp add: extractFees_def Let_def)

lemma distinct_concat_feeOf:
  "distinct (map snd ps) \<Longrightarrow>
     distinct (map FeeEntry.category (concat (map (feeOf lc s) ps)))"
proof (induction ps)
  case Nil
  then show ?case by simp
next
  case (Cons p ps)
  have a: "set (map FeeEntry.category (concat (map (feeOf lc s) ps))) \<subseteq> snd ` set ps"
    by (auto dest!: category_feeOf)
  have b: "set (map FeeEntry.category (feeOf lc s p)) \<subseteq> {snd p}"
    by (auto dest: category_feeOf)
  from Cons.prems have d: "snd p \<notin> snd ` set ps" by simp
  from a b d have "set (map FeeEntry.category (feeOf lc s p))
      \<inter> set (map FeeEntry.category (concat (map (feeOf lc s) ps))) = {}" by blast
  moreover have "distinct (map FeeEntry.category (feeOf lc s p))"
    by (simp add: feeOf_def split: option.splits)
  moreover from Cons have "distinct (map FeeEntry.category (concat (map (feeOf lc s) ps)))"
    by simp
  ultimately show ?case by (simp del: set_map set_concat)
qed

lemma formatFee_capture:
  assumes "lowers lc" "ascii cap"
  shows "formatFee lc cap =
     (if asciiLower cap = js ''nil'' \<or> asciiLower cap = js ''exempted'' then js ''Nil''
      else [rupee] @ filter (\<lambda>c. c \<noteq> 44) cap @ js ''/-'')"
  by (simp add: formatFee_def replace_all_commaRe lowers_ascii [OF assms])

definition notice5 :: jstring where
  "notice5 = js ''Application Fee for General, OBC candidates: Rs. 100 only, payable online.''"

text \<open>
  C6. The entries of \<open>extractFees\<close> are, in the order of the table, one for every pattern
  that matches the searched text: its category with the formatted capture of the leftmost
  match, so that no category occurs twice. A capture is never empty; one that is "nil" or
  "exempted", in any mix of cases, gives the fee "Nil"; every other capture is a text of
  digits and commas, and gives the rupee sign, the capture without its commas, and "/-".
  The text "General: Rs. 1,000" gives the fee of 1000 rupees, and "SC/ST: Nil" gives the
  entry of category "SC/ST" with the fee "Nil".

  The capture of digits and commas need not hold a digit: in "General, OBC: 100" the
  pattern of "General" captures the comma that follows the word, and the fee stored has
  no amount at all. \<open>notice5\<close> is a notice of 74 units with that effect.
\<close>

theorem extractFees_format:
  assumes "lowers lc"
  shows "extractFees lc text
       = concat (map (feeOf lc (orElse (extractSection lc text feeHeaders) text)) feePatterns)
   \<and> (\<forall>p \<in> set feePatterns. \<forall>m. re_match True (fst p) s = Some m \<longrightarrow>
        (\<exists>cap. grp m 1 = Some cap \<and> cap \<noteq> []
           \<and> feeOf lc s p = [\<lparr>FeeEntry.category = snd p, fee = formatFee lc cap\<rparr>]
           \<and> (if asciiLower cap = js ''nil'' \<or> asciiLower cap = js ''exempted''
               then formatFee lc cap = js ''Nil''
               else list_all (\<lambda>c. isDigit c \<or> c = 44) cap
                 \<and> formatFee lc cap = [rupee] @ filter (\<lambda>c. c \<noteq> 44) cap @ js ''/-'')))
   \<and> distinct (map FeeEntry.category (extractFees lc text))
   \<and> extractFees asciiLower (js ''General: Rs. 1,000'') =
        [\<lparr>FeeEntry.category = js ''General/EWS/OBC'', fee = rupee # js ''1000/-''\<rparr>,
         \<lparr>FeeEntry.category = js ''General'', fee = rupee # js ''1000/-''\<rparr>]
   \<and> extractFees asciiLower (js ''SC/ST: Nil'') =
        [\<lparr>FeeEntry.category = js ''SC/ST'', fee = js ''Nil''\<rparr>,
         \<lparr>FeeEntry.category = js ''ST'', fee = js ''Nil''\<rparr>]
   \<and> map snd feePatterns =
        [js ''General/EWS/OBC'', js ''General'', js ''OBC'', js ''EWS'', js ''SC/ST'', js ''SC'',
         js ''ST'', js ''Female'', js ''PH/PWD'', js ''Ex-Serviceman'']
   \<and> extractFees asciiLower (js ''EWS: Rs. 500 PH: Exempted'') =
        [\<lparr>FeeEntry.category = js ''EWS'', fee = rupee # js ''500/-''\<rparr>,
         \<lparr>FeeEntry.category = js ''PH/PWD'', fee = js ''Nil''\<rparr>]
   \<and> extractFees asciiLower (js ''General, OBC: 100'') =
        [\<lparr>FeeEntry.category = js ''General/EWS/OBC'', fee = rupee # js ''/-''\<rparr>,
         \<lparr>FeeEntry.category = js ''General'', fee = rupee # js ''/-''\<rparr>,
         \<lparr>FeeEntry.category = js ''OBC'', fee = rupee # js ''100/-''\<rparr>]
   \<and> length (trim notice5) = 74
   \<and> applicationFee (parseJobNotification asciiLower notice5) =
        [\<lparr>FeeEntry.category = js ''General/EWS/OBC'', fee = rupee # js ''/-''\<rparr>,
         \<lparr>FeeEntry.category = js ''General'', fee = rupee # js ''/-''\<rparr>]"
proof (intro conjI ballI allI impI)
  show "extractFees lc text
       = concat (map (feeOf lc (orElse (extractSection lc text feeHeaders) text)) feePatterns)"
    by (rule extractFees_feeOf)
  then show "distinct (map FeeEntry.category (extractFees lc text))"
    by (simp add: distinct_concat_feeOf distinct_feePatterns)
next
  fix p m
  assume p: "p \<in> set feePatterns" and m: "re_match True (fst p) s = Some m"
  from fee_capture [OF p m] obtain cap where cap: "grp m 1 = Some cap" "cap \<noteq> []" "ascii cap"
    and ok: "list_all (\<lambda>c. isDigit c \<or> c = 44) cap
       \<or> asciiLower cap = js ''nil'' \<or> asciiLower cap = js ''exempted''" by blast
  from cap(1) m have "feeOf lc s p = [\<lparr>FeeEntry.category = snd p, fee = formatFee lc cap\<rparr>]"
    by (simp add: feeOf_def capture_def)
  moreover from ok have "if asciiLower cap = js ''nil'' \<or> asciiLower cap = js ''exempted''
       then formatFee lc cap = js ''Nil''
       else list_all (\<lambda>c. isDigit c \<or> c = 44) cap
         \<and> formatFee lc cap = [rupee] @ filter (\<lambda>c. c \<noteq> 44) cap @ js ''/-''"
    by (auto simp: formatFee_capture [OF assms cap(3)])
  ultimately show "\<exists>cap. grp m 1 = Some cap \<and> cap \<noteq> []
           \<and> feeOf lc s p = [\<lparr>FeeEntry.category = snd p, fee = formatFee lc cap\<rparr>]
           \<and> (if asciiLower cap = js ''nil'' \<or> asciiLower cap = js ''exempted''
               then formatFee lc cap = js ''Nil''
               else list_all (\<lambda>c. isDigit c \<or> c = 44) cap
                 \<and> formatFee lc cap = [rupee] @ filter (\<lambda>c. c \<noteq> 44) cap @ js ''/-'')"
    using cap by (intro exI [of _ cap]) simp
next
  show "extractFees asciiLower (js ''General: Rs. 1,000'') =
        [\<lparr>FeeEntry.category = js ''General/EWS/OBC'', fee = rupee # js ''1000/-''\<rparr>,
         \<lparr>FeeEntry.category = js ''General'', fee = rupee # js ''1000/-''\<rparr>]"
    unfolding extractFees_def Let_def
    by (simp add: fee_defs regex_defs char_defs string_defs engine_defs)
next
  show "extractFees asciiLower (js ''SC/ST: Nil'') =
        [\<lparr>FeeEntry.category = js ''SC/ST'', fee = js ''Nil''\<rparr>,
         \<lparr>FeeEntry.category = js ''ST'', fee = js ''Nil''\<rparr>]"
    unfolding extractFees_def Let_def
    by (simp add: fee_defs regex_defs char_defs string_defs engine_defs)
next
  show "map snd feePatterns =
        [js ''General/EWS/OBC'', js ''General'', js ''OBC'', js ''EWS'', js ''SC/ST'', js ''SC'',
         js ''ST'', js ''Female'', js ''PH/PWD'', js ''Ex-Serviceman'']"
    by (simp add: feePatterns_def)
next
  show "extractFees asciiLower (js ''EWS: Rs. 500 PH: Exempted'') =
        [\<lparr>FeeEntry.category = js ''EWS'', fee = rupee # js ''500/-''\<rparr>,
         \<lparr>FeeEntry.category = js ''PH/PWD'', fee = js ''Nil''\<rparr>]"
    unfolding extractFees_def Let_def
    by (simp add: fee_defs regex_defs char_defs string_defs engine_defs)
next
  show "extractFees asciiLower (js ''General, OBC: 100'') =
        [\<lparr>FeeEntry.category = js ''General/EWS/OBC'', fee = rupee # js ''/-''\<rparr>,
         \<lparr>FeeEntry.category = js ''General'', fee = rupee # js ''/-''\<rparr>,
         \<lparr>FeeEntry.category = js ''OBC'', fee = rupee # js ''100/-''\<rparr>]"
    unfolding extractFees_def Let_def
    by (simp add: fee_defs regex_defs char_defs string_defs engine_defs)
next
  show "length (trim notice5) = 74"
    by (simp add: notice5_def char_defs string_defs)
next
  have "extractFees asciiLower notice5 =
        [\<lparr>FeeEntry.category = js ''General/EWS/OBC'', fee = rupee # js ''/-''\<rparr>,
         \<lparr>FeeEntry.category = js ''General'', fee = rupee # js ''/-''\<rparr>]"
    unfolding extractFees_def Let_def
    by (simp add: notice5_def nextSection_def fee_defs regex_defs char_defs string_defs
        engine_defs)
  then show "applicationFee (parseJobNotification asciiLower notice5) =
        [\<lparr>FeeEntry.category = js ''General/EWS/OBC'', fee = rupee # js ''/-''\<rparr>,
         \<lparr>FeeEntry.category = js ''General'', fee = rupee # js ''/-''\<rparr>]"
    by (simp add: parseJobNotification_def Let_def)
qed

theorem extractFees_format_witness:
  "lowers asciiLower
   \<and> (\<exists>p m cap. p \<in> set feePatterns
        \<and> re_match True (fst p) (js ''General: Rs. 1,000'') = Some m
        \<and> grp m 1 = Some cap \<and> cap = js ''1,000''
        \<and> list_all (\<lambda>c. isDigit c \<or> c = 44) cap
        \<and> formatFee asciiLower cap = rupee # js ''1000/-'')"
proof -
  let ?p = "feePatterns ! 1"
  let ?s = "js ''General: Rs. 1,000''"
  have p: "?p \<in> set feePatterns" by (simp add: feePatterns_def)
  have g: "map_option (\<lambda>m. grp m 1) (re_match True (fst ?p) ?s) = Some (Some (js ''1,000''))"
    by (simp add: fee_defs regex_defs char_defs string_defs engine_defs)
  then obtain m where m: "re_match True (fst ?p) ?s = Some m" "grp m 1 = Some (js ''1,000'')"
    by auto
  note inst = extractFees_format [OF lowers_asciiLower, of "[]" ?s]
  from inst p m(1) obtain cap where cap: "grp m 1 = Some cap"
    and fmt: "if asciiLower cap = js ''nil'' \<or> asciiLower cap = js ''exempted''
       then formatFee asciiLower cap = js ''Nil''
       else list_all (\<lambda>c. isDigit c \<or> c = 44) cap
         \<and> formatFee asciiLower cap = [rupee] @ filter (\<lambda>c. c \<noteq> 44) cap @ js ''/-''"
    by blast
  from cap m(2) have c: "cap = js ''1,000''" by simp
  have "asciiLower (js ''1,000'') \<noteq> js ''nil''" "asciiLower (js ''1,000'') \<noteq> js ''exempted''"
    by (simp_all add: string_defs char_defs)
  with fmt c have "list_all (\<lambda>c. isDigit c \<or> c = 44) cap
      \<and> formatFee asciiLower cap = [rupee] @ filter (\<lambda>c. c \<noteq> 44) cap @ js ''/-''"
    by simp
  moreover have "filter (\<lambda>c. c \<noteq> 44) (js ''1,000'') = js ''1000''"
    by (simp add: js_def)
  ultimately have "list_all (\<lambda>c. isDigit c \<or> c = 44) cap
      \<and> formatFee asciiLower cap = rupee # js ''1000/-''"
    using c by (simp add: js_def)
  with p m c lowers_asciiLower show ?thesis by blast
qed


section \<open>extractAgeLimit: the default ages\<close>

lemma run_ageRange:
  assumes "run ic n (ageRange key) st st'"
  shows "\<exists>a b. snd st' 1 = Some a \<and> snd st' 2 = Some b \<and> a \<noteq> [] \<and> b \<noteq> []
     \<and> list_all isDigit a \<and> list_all isDigit b"
proof -
  let ?tail2 = "Eps"
  let ?tail1 = "seqs [ws, to_dash, ws, Grp 2 digits]"
  from assms have "run ic n (Seq key (Seq ws (Seq colon_dash (Seq ws
      (Seq (Grp 1 digits) ?tail1))))) st st'"
    by (simp add: ageRange_def seqs_def)
  from run_Seq_tail4 [OF this] obtain st1 where
    1: "run ic n (Seq (Grp 1 digits) ?tail1) st1 st'" by blast
  have g1: "1 \<notin> set (groups ?tail1)"
    by (simp add: seqs_def regex_defs to_dash_def)
  from run_Seq_Grp_digits [OF 1 g1] obtain a where
    a: "a \<noteq> []" "list_all isDigit a" "snd st' 1 = Some a" by blast
  from 1 have "run ic n (Seq (Grp 1 digits) (Seq ws (Seq to_dash (Seq ws
      (Seq (Grp 2 digits) ?tail2))))) st1 st'"
    by (simp add: seqs_def)
  from run_Seq_tail4 [OF this] obtain st2 where
    2: "run ic n (Seq (Grp 2 digits) ?tail2) st2 st'" by blast
  from run_Seq_Grp_digits [OF 2] obtain b where
    "b \<noteq> []" "list_all isDigit b" "snd st' 2 = Some b" by auto
  with a show ?thesis by blast
qed

lemma run_ageMax:
  assumes "run ic n (ageMax key) st st'" "groups key = []"
  shows "snd st' 1 = snd st 1 \<and> snd st' 2 = snd st 2
     \<and> (\<exists>d. snd st' 3 = Some d \<and> d \<noteq> [] \<and> list_all isDigit d)"
proof -
  have g: "groups (ageMax key) = [3]"
    using assms(2) by (simp add: ageMax_def seqs_def regex_defs)
  from run_frame [OF assms(1)] g have "snd st' 1 = snd st 1" "snd st' 2 = snd st 2" by simp_all
  moreover from assms(1) obtain st3 where 3: "run ic n (Seq (Grp 3 digits) Eps) st3 st'"
    by (auto simp: ageMax_def seqs_def elim!: run_SeqE intro: run_Seq)
  from run_Seq_Grp_digits [OF 3] obtain d where
    "d \<noteq> []" "list_all isDigit d" "snd st' 3 = Some d" by auto
  ultimately show ?thesis by blast
qed

lemma categoryPatterns_shape:
  assumes "p \<in> set categoryPatterns"
  obtains k1 k2 where "fst p = Alt (ageRange k1) (ageMax k2)" "groups k2 = []"
  using assms by (auto simp: categoryPatterns_def)

lemma age_capture:
  assumes "p \<in> set categoryPatterns" "re_match True (fst p) s = Some m"
  shows "(\<exists>a b. grp m 1 = Some a \<and> grp m 2 = Some b \<and> a \<noteq> [] \<and> b \<noteq> []
            \<and> list_all isDigit a \<and> list_all isDigit b)
     \<or> (grp m 1 = None \<and> grp m 2 = None
          \<and> (\<exists>d. grp m 3 = Some d \<and> d \<noteq> [] \<and> list_all isDigit d))"
proof -
  from assms(1) obtain k1 k2 where
    p: "fst p = Alt (ageRange k1) (ageMax k2)" and k2: "groups k2 = []"
    by (rule categoryPatterns_shape)
  from assms(2) search_run obtain rest0 post where
    "run True (length s) (fst p) (rest0, Map.empty) (post, grp m)"
    unfolding re_match_def by blast
  with p consider "run True (length s) (ageRange k1) (rest0, Map.empty) (post, grp m)"
    | "run True (length s) (ageMax k2) (rest0, Map.empty) (post, grp m)"
    by (auto elim: run_AltE)
  then show ?thesis
  proof cases
    case 1
    from run_ageRange [OF 1] show ?thesis by simp
  next
    case 2
    from run_ageMax [OF 2 k2] show ?thesis by simp
  qed
qed

lemma no_digit_capture:
  assumes "re_match ic r s = Some m" "grp m g = Some w" "w \<noteq> []" "list_all isDigit w"
  shows "list_ex isDigit s"
proof -
  from assms(3) obtain x xs where w: "w = x # xs" by (cases w) auto
  with assms(4) have "isDigit x" by simp
  moreover from re_match_capture_subset [OF assms(1,2)] w have "x \<in> set s" by auto
  ultimately show ?thesis by (auto simp: list_ex_iff)
qed

lemma no_digit_category:
  assumes "p \<in> set categoryPatterns" "\<not> list_ex isDigit s"
  shows "re_match True (fst p) s = None"
proof (rule ccontr)
  assume "re_match True (fst p) s \<noteq> None"
  then obtain m where m: "re_match True (fst p) s = Some m" by auto
  from age_capture [OF assms(1) m] no_digit_capture [OF m] assms(2) show False by blast
qed

lemma re_match_first_group:
  assumes "re_match ic (Seq (Grp g digits) tail) s = Some m" "g \<notin> set (groups tail)"
  shows "list_ex isDigit s"
proof -
  from assms(1) search_run obtain rest0 post where
    "run ic (length s) (Seq (Grp g digits) tail) (rest0, Map.empty) (post, grp m)"
    unfolding re_match_def by blast
  from run_Seq_Grp_digits [OF this assms(2)] obtain w where
    "w \<noteq> []" "list_all isDigit w" "grp m g = Some w" by auto
  with no_digit_capture [OF assms(1)] show ?thesis by blast
qed

lemma no_digit_range: "\<not> list_ex isDigit s \<Longrightarrow> re_match True rangeRe s = None"
proof (rule ccontr)
  assume nd: "\<not> list_ex isDigit s" and "re_match True rangeRe s \<noteq> None"
  then obtain m where
    "re_match True (Seq (Grp 1 digits) (seqs [ws, to_dash, ws, Grp 2 digits, ws, lit ''year'',
       ropt (lit ''s'')])) s = Some m"
    by (auto simp: rangeRe_def seqs_def)
  from re_match_first_group [OF this] nd show False
    by (simp add: seqs_def regex_defs to_dash_def)
qed

lemma no_digit_single: "\<not> list_ex isDigit s \<Longrightarrow> re_match True singleAgeRe s = None"
proof (rule ccontr)
  assume nd: "\<not> list_ex isDigit s" and "re_match True singleAgeRe s \<noteq> None"
  then obtain m where m: "re_match True singleAgeRe s = Some m" by auto
  from m search_run obtain rest0 post where
    "run True (length s) singleAgeRe (rest0, Map.empty) (post, grp m)"
    unfolding re_match_def by blast
  then have "run True (length s)
      (seqs ([alts [lit ''minimum'', lit ''min''], ws, ropt (lit ''age''), ws, colon_dash, ws,
              Grp 1 digits, ws, ropt (Seq (lit ''year'') (ropt (lit ''s''))),
              rstar (cls [Spc, C CHR '','']), alts [lit ''maximum'', lit ''max''], ws,
              ropt (lit ''age''), ws, colon_dash, ws] @ [Grp 2 digits]))
      (rest0, Map.empty) (post, grp m)"
    by (simp add: singleAgeRe_def)
  from run_seqs_drop [OF this] obtain st16 where
    "run True (length s) (Seq (Grp 2 digits) Eps) st16 (post, grp m)"
    by (auto simp: seqs_def)
  from run_Seq_Grp_digits [OF this] obtain w where
    "w \<noteq> []" "list_all isDigit w" "grp m 2 = Some w" by auto
  with no_digit_capture [OF m] nd show False by blast
qed

lemma set_trim: "set (trim s) \<subseteq> set s"
  by (auto simp: trim_def dest!: set_dropWhileD)

lemma set_slice: "set (slice s a b) \<subseteq> set s"
  by (auto simp: slice_def dest!: in_set_takeD in_set_dropD)

lemma set_extractSection: "set (extractSection lc text headers) \<subseteq> set text"
proof (induction headers)
  case Nil
  then show ?case by simp
next
  case (Cons h hs)
  have "set (trim (slice text a b)) \<subseteq> set text" for a b
    using set_trim [of "slice text a b"] set_slice [of "text" a b] by (rule order_trans)
  with Cons show ?case by (simp add: Let_def split: option.splits)
qed

lemma extractAgeLimit_no_digit:
  assumes "\<not> list_ex isDigit text"
  shows "extractAgeLimit lc text = []"
proof -
  let ?s = "orElse (extractSection lc text ageHeaders) text"
  from set_extractSection [of lc "text" ageHeaders] have "set ?s \<subseteq> set text"
    by (simp add: orElse_def)
  with assms have nd: "\<not> list_ex isDigit ?s" by (auto simp: list_ex_iff)
  have step: "ageStep ?s ages p = ages" if "p \<in> set categoryPatterns" for ages p
    using no_digit_category [OF that nd] by (simp add: ageStep_def)
  have "foldl (ageStep ?s) ages ps = ages" if "set ps \<subseteq> set categoryPatterns" for ages ps
    using that by (induction ps arbitrary: ages) (simp_all add: step)
  then have "foldl (ageStep ?s) [] categoryPatterns = []" by simp
  with no_digit_single [OF nd] no_digit_range [OF nd] show ?thesis
    by (simp add: extractAgeLimit_def Let_def)
qed

lemmas age_defs = ageHeaders_def categoryPatterns_def ageStep_def ageRange_def ageMax_def
  singleAgeRe_def rangeRe_def to_dash_def orDefault_def

text \<open>
  C3, as stated, does not hold in its second part: the text "General category candidates"
  has the key word and no number, and no entry is produced for it, with 35 or with any
  other maximum.
\<close>

theorem extractAgeLimit_counterexample:
  "includes_str (asciiLower (js ''General category candidates'')) (js ''general'')
   \<and> extractAgeLimit asciiLower (js ''General category candidates'') = []"
  unfolding extractAgeLimit_def Let_def
  by (simp add: age_defs regex_defs char_defs string_defs engine_defs)

text \<open>The entries that precede those of the categories: one for "General" at most, from
  the expression of minimum and maximum, or else from that of a range.\<close>

definition generalAges :: "jstring \<Rightarrow> AgeEntry list" where
  "generalAges s =
     (case re_match True singleAgeRe s of
        Some m \<Rightarrow> [\<lparr>AgeEntry.category = js ''General'', minAge = capture m 1,
                    maxAge = capture m 2\<rparr>]
      | None \<Rightarrow>
          (case re_match True rangeRe s of
             Some m \<Rightarrow> [\<lparr>AgeEntry.category = js ''General'', minAge = capture m 1,
                         maxAge = capture m 2\<rparr>]
           | None \<Rightarrow> []))"

text \<open>The entry that the pattern of a category contributes, given the entries \<open>general\<close>
  that precede: none when the pattern does not match or the category is already among
  \<open>general\<close>; otherwise the captured range, or 18 and the captured maximum when no minimum
  is captured.\<close>

definition ageOf :: "jstring \<Rightarrow> AgeEntry list \<Rightarrow> regex \<times> jstring \<Rightarrow> AgeEntry list" where
  "ageOf s general p =
     (case re_match True (fst p) s of
        None \<Rightarrow> []
      | Some m \<Rightarrow>
          if find (\<lambda>a. AgeEntry.category a = snd p) general = None
          then [\<lparr>AgeEntry.category = snd p,
                 minAge = (if grp m 1 = None then js ''18'' else capture m 1),
                 maxAge = (if grp m 1 = None then capture m 3 else capture m 2)\<rparr>]
          else [])"

lemma extractAgeLimit_foldl:
  "extractAgeLimit lc text =
     foldl (ageStep (orElse (extractSection lc text ageHeaders) text))
       (generalAges (orElse (extractSection lc text ageHeaders) text)) categoryPatterns"
  by (simp add: extractAgeLimit_def generalAges_def Let_def split: option.splits)

lemma single_capture:
  assumes "re_match True singleAgeRe s = Some m"
  shows "\<exists>w. grp m 2 = Some w \<and> w \<noteq> [] \<and> list_all isDigit w"
proof -
  from assms search_run obtain rest0 post where
    "run True (length s) singleAgeRe (rest0, Map.empty) (post, grp m)"
    unfolding re_match_def by blast
  then have "run True (length s)
      (seqs ([alts [lit ''minimum'', lit ''min''], ws, ropt (lit ''age''), ws, colon_dash, ws,
              Grp 1 digits, ws, ropt (Seq (lit ''year'') (ropt (lit ''s''))),
              rstar (cls [Spc, C CHR '','']), alts [lit ''maximum'', lit ''max''], ws,
              ropt (lit ''age''), ws, colon_dash, ws] @ [Grp 2 digits]))
      (rest0, Map.empty) (post, grp m)"
    by (simp add: singleAgeRe_def)
  from run_seqs_drop [OF this] obtain st16 where
    "run True (length s) (Seq (Grp 2 digits) Eps) st16 (post, grp m)"
    by (auto simp: seqs_def)
  from run_Seq_Grp_digits [OF this] show ?thesis by auto
qed

lemma range_capture:
  assumes "re_match True rangeRe s = Some m"
  shows "\<exists>w. grp m 2 = Some w \<and> w \<noteq> [] \<and> list_all isDigit w"
proof -
  let ?tail = "seqs [ws, lit ''year'', ropt (lit ''s'')]"
  from assms search_run obtain rest0 post where
    "run True (length s) rangeRe (rest0, Map.empty) (post, grp m)"
    unfolding re_match_def by blast
  then have "run True (length s)
      (seqs ([Grp 1 digits, ws, to_dash, ws] @ [Grp 2 digits, ws, lit ''year'', ropt (lit ''s'')]))
      (rest0, Map.empty) (post, grp m)"
    by (simp add: rangeRe_def)
  from run_seqs_drop [OF this] obtain st4 where
    "run True (length s) (Seq (Grp 2 digits) ?tail) st4 (post, grp m)"
    by (auto simp: seqs_def)
  moreover have "2 \<notin> set (groups ?tail)"
    by (simp add: seqs_def regex_defs)
  ultimately show ?thesis using run_Seq_Grp_digits by fastforce
qed

lemma generalAges_entry:
  assumes "e \<in> set (generalAges s)"
  shows "AgeEntry.category e = js ''General'' \<and> maxAge e \<noteq> [] \<and> list_all isDigit (maxAge e)"
proof (cases "re_match True singleAgeRe s")
  case (Some m)
  with single_capture [OF Some] assms show ?thesis
    by (auto simp: generalAges_def capture_def)
next
  case None
  show ?thesis
  proof (cases "re_match True rangeRe s")
    case (Some m)
    with None range_capture [OF Some] assms show ?thesis
      by (auto simp: generalAges_def capture_def)
  next
    case n: None
    with None assms show ?thesis by (simp add: generalAges_def)
  qed
qed

lemma ageStep_ageOf:
  assumes "p \<in> set categoryPatterns"
    and "find (\<lambda>a. AgeEntry.category a = snd p) ages = None
         \<longleftrightarrow> find (\<lambda>a. AgeEntry.category a = snd p) general = None"
  shows "ageStep s ages p = ages @ ageOf s general p"
proof (cases "re_match True (fst p) s")
  case None
  then show ?thesis by (simp add: ageStep_def ageOf_def)
next
  case (Some m)
  from age_capture [OF assms(1) Some] assms(2) Some show ?thesis
    by (auto simp: ageStep_def ageOf_def orDefault_def capture_def Let_def)
qed

lemma category_ageOf: "e \<in> set (ageOf s general p) \<Longrightarrow> AgeEntry.category e = snd p"
  by (auto simp: ageOf_def split: option.splits if_splits)

lemma foldl_ageStep_ageOf:
  assumes "set ps \<subseteq> set categoryPatterns" "distinct (map snd ps)"
    and "\<forall>e\<in>set extra. AgeEntry.category e \<notin> snd ` set ps"
  shows "foldl (ageStep s) (general @ extra) ps
     = general @ extra @ concat (map (ageOf s general) ps)"
  using assms
proof (induction ps arbitrary: extra)
  case Nil
  then show ?case by simp
next
  case (Cons p ps)
  from Cons.prems(3) have "find (\<lambda>a. AgeEntry.category a = snd p) extra = None"
    by (auto simp: find_None_iff)
  then have "find (\<lambda>a. AgeEntry.category a = snd p) (general @ extra) = None
      \<longleftrightarrow> find (\<lambda>a. AgeEntry.category a = snd p) general = None"
    by (auto simp: find_None_iff)
  with Cons.prems(1) have step:
    "ageStep s (general @ extra) p = (general @ extra) @ ageOf s general p"
    by (intro ageStep_ageOf) auto
  from Cons.prems(2) have d: "snd p \<notin> snd ` set ps" by simp
  have "AgeEntry.category e \<notin> snd ` set ps" if "e \<in> set (extra @ ageOf s general p)" for e
  proof (cases "e \<in> set extra")
    case True
    with Cons.prems(3) show ?thesis by simp
  next
    case False
    with that have "AgeEntry.category e = snd p" by (auto dest: category_ageOf)
    with d show ?thesis by simp
  qed
  then have "\<forall>e\<in>set (extra @ ageOf s general p). AgeEntry.category e \<notin> snd ` set ps"
    by blast
  with Cons.IH [of "extra @ ageOf s general p"] Cons.prems(1,2) step show ?case by simp
qed

lemma distinct_categoryPatterns: "distinct (map snd categoryPatterns)"
  by (simp add: categoryPatterns_def js_def)

lemma extractAgeLimit_ageOf:
  "extractAgeLimit lc text =
     generalAges (orElse (extractSection lc text ageHeaders) text)
     @ concat (map (ageOf (orElse (extractSection lc text ageHeaders) text)
                     (generalAges (orElse (extractSection lc text ageHeaders) text)))
                categoryPatterns)"
  using foldl_ageStep_ageOf [of categoryPatterns "[]"] distinct_categoryPatterns
  by (simp add: extractAgeLimit_foldl)

lemma ageOf_max:
  assumes "p \<in> set categoryPatterns" "e \<in> set (ageOf s general p)"
  shows "maxAge e \<noteq> [] \<and> list_all isDigit (maxAge e)"
proof (cases "re_match True (fst p) s")
  case None
  with assms(2) show ?thesis by (simp add: ageOf_def)
next
  case (Some m)
  with assms(2) have "maxAge e = (if grp m 1 = None then capture m 3 else capture m 2)"
    by (auto simp: ageOf_def split: if_splits)
  with age_capture [OF assms(1) Some] show ?thesis
    by (auto simp: capture_def)
qed

text \<open>
  C3, amended. The entries of \<open>extractAgeLimit\<close> are those of \<open>generalAges\<close> followed, in the
  order General, OBC, SC/ST, EWS, by one entry for every category pattern that matches
  the searched text, unless an entry of that category is already among \<open>generalAges\<close>. A
  match of a category pattern always captures a maximum, a text of digits: when it
  captures no minimum (group 1 unset, the "maximum only" form) the entry's \<open>minAge\<close> is "18"
  and its \<open>maxAge\<close> the captured maximum, and otherwise both are the captured range. So the
  \<open>maxAge\<close> of every entry is a captured number, the default "35" is never used, and a
  text without a digit yields no entry at all, whatever key words it holds.
\<close>

theorem extractAgeLimit_defaults:
  "extractAgeLimit lc text =
     generalAges (orElse (extractSection lc text ageHeaders) text)
     @ concat (map (ageOf (orElse (extractSection lc text ageHeaders) text)
                     (generalAges (orElse (extractSection lc text ageHeaders) text)))
                categoryPatterns)
   \<and> (\<forall>p \<in> set categoryPatterns. \<forall>m. re_match True (fst p) s = Some m \<longrightarrow>
        (grp m 1 = None \<and> grp m 2 = None
           \<and> (\<exists>d. grp m 3 = Some d \<and> d \<noteq> [] \<and> list_all isDigit d)
           \<and> ageOf s [] p = [\<lparr>AgeEntry.category = snd p, minAge = js ''18'',
                                 maxAge = capture m 3\<rparr>])
        \<or> ((\<exists>a b. grp m 1 = Some a \<and> grp m 2 = Some b \<and> a \<noteq> [] \<and> b \<noteq> []
               \<and> list_all isDigit a \<and> list_all isDigit b)
           \<and> ageOf s [] p = [\<lparr>AgeEntry.category = snd p, minAge = capture m 1,
                                 maxAge = capture m 2\<rparr>]))
   \<and> (\<forall>e \<in> set (extractAgeLimit lc text). maxAge e \<noteq> [] \<and> list_all isDigit (maxAge e))
   \<and> (\<not> list_ex isDigit text \<longrightarrow> extractAgeLimit lc text = [])
   \<and> extractAgeLimit asciiLower (js ''General: max 30'')
       = [\<lparr>AgeEntry.category = js ''General'', minAge = js ''18'', maxAge = js ''30''\<rparr>]
   \<and> extractAgeLimit asciiLower (js ''21-30 Years. General maximum 40'')
       = [\<lparr>AgeEntry.category = js ''General'', minAge = js ''21'', maxAge = js ''30''\<rparr>]
   \<and> map snd categoryPatterns = [js ''General'', js ''OBC'', js ''SC/ST'', js ''EWS'']
   \<and> extractAgeLimit asciiLower (js ''OBC: 18-33 SC/ST maximum 40'')
       = [\<lparr>AgeEntry.category = js ''OBC'', minAge = js ''18'', maxAge = js ''33''\<rparr>,
          \<lparr>AgeEntry.category = js ''SC/ST'', minAge = js ''18'', maxAge = js ''40''\<rparr>]"
proof (intro conjI ballI allI impI)
  let ?s = "orElse (extractSection lc text ageHeaders) text"
  show eq: "extractAgeLimit lc text
      = generalAges ?s @ concat (map (ageOf ?s (generalAges ?s)) categoryPatterns)"
    by (rule extractAgeLimit_ageOf)
  show "maxAge e \<noteq> []" "list_all isDigit (maxAge e)" if "e \<in> set (extractAgeLimit lc text)" for e
  proof -
    from that eq consider "e \<in> set (generalAges ?s)"
      | p where "p \<in> set categoryPatterns" "e \<in> set (ageOf ?s (generalAges ?s) p)"
      by auto
    then have "maxAge e \<noteq> [] \<and> list_all isDigit (maxAge e)"
    proof cases
      case 1
      then show ?thesis by (simp add: generalAges_entry)
    next
      case 2
      then show ?thesis by (rule ageOf_max)
    qed
    then show "maxAge e \<noteq> []" "list_all isDigit (maxAge e)" by simp_all
  qed
  show "extractAgeLimit lc text = []" if "\<not> list_ex isDigit text"
    using that by (rule extractAgeLimit_no_digit)
next
  fix p m
  assume p: "p \<in> set categoryPatterns" and m: "re_match True (fst p) s = Some m"
  from age_capture [OF p m] m
  show "(grp m 1 = None \<and> grp m 2 = None
           \<and> (\<exists>d. grp m 3 = Some d \<and> d \<noteq> [] \<and> list_all isDigit d)
           \<and> ageOf s [] p = [\<lparr>AgeEntry.category = snd p, minAge = js ''18'',
                                 maxAge = capture m 3\<rparr>])
        \<or> ((\<exists>a b. grp m 1 = Some a \<and> grp m 2 = Some b \<and> a \<noteq> [] \<and> b \<noteq> []
               \<and> list_all isDigit a \<and> list_all isDigit b)
           \<and> ageOf s [] p = [\<lparr>AgeEntry.category = snd p, minAge = capture m 1,
                                 maxAge = capture m 2\<rparr>])"
    by (auto simp: ageOf_def)
next
  show "extractAgeLimit asciiLower (js ''General: max 30'')
       = [\<lparr>AgeEntry.category = js ''General'', minAge = js ''18'', maxAge = js ''30''\<rparr>]"
    unfolding extractAgeLimit_def Let_def
    by (simp add: age_defs regex_defs char_defs string_defs engine_defs)
next
  show "extractAgeLimit asciiLower (js ''21-30 Years. General maximum 40'')
       = [\<lparr>AgeEntry.category = js ''General'', minAge = js ''21'', maxAge = js ''30''\<rparr>]"
    unfolding extractAgeLimit_def Let_def
    by (simp add: age_defs regex_defs char_defs string_defs engine_defs)
next
  show "map snd categoryPatterns = [js ''General'', js ''OBC'', js ''SC/ST'', js ''EWS'']"
    by (simp add: categoryPatterns_def)
next
  show "extractAgeLimit asciiLower (js ''OBC: 18-33 SC/ST maximum 40'')
       = [\<lparr>AgeEntry.category = js ''OBC'', minAge = js ''18'', maxAge = js ''33''\<rparr>,
          \<lparr>AgeEntry.category = js ''SC/ST'', minAge = js ''18'', maxAge = js ''40''\<rparr>]"
    unfolding extractAgeLimit_def Let_def
    by (simp add: age_defs regex_defs char_defs string_defs engine_defs)
qed

theorem extractAgeLimit_defaults_witness:
  "categoryPatterns ! 0 \<in> set categoryPatterns
   \<and> map_option (\<lambda>m. (grp m 1, grp m 2, grp m 3))
       (re_match True (fst (categoryPatterns ! 0)) (js ''General: max 30''))
     = Some (None, None, Some (js ''30''))
   \<and> ageOf (js ''General: max 30'') [] (categoryPatterns ! 0)
     = [\<lparr>AgeEntry.category = js ''General'', minAge = js ''18'', maxAge = js ''30''\<rparr>]
   \<and> (\<exists>e. e \<in> set (extractAgeLimit asciiLower (js ''General: max 30''))
        \<and> maxAge e = js ''30'' \<and> list_all isDigit (maxAge e))
   \<and> \<not> list_ex isDigit (js ''General category candidates'')
   \<and> extractAgeLimit asciiLower (js ''General category candidates'') = []"
proof -
  let ?p = "categoryPatterns ! 0"
  let ?s = "js ''General: max 30''"
  let ?e = "\<lparr>AgeEntry.category = js ''General'', minAge = js ''18'', maxAge = js ''30''\<rparr>"
  have p: "?p \<in> set categoryPatterns" by (simp add: categoryPatterns_def)
  have cat: "snd ?p = js ''General''" by (simp add: categoryPatterns_def)
  have g: "map_option (\<lambda>m. (grp m 1, grp m 2, grp m 3)) (re_match True (fst ?p) ?s)
      = Some (None, None, Some (js ''30''))"
    by (simp add: age_defs regex_defs char_defs string_defs engine_defs)
  then obtain m where m: "re_match True (fst ?p) ?s = Some m" "grp m 1 = None"
    "grp m 3 = Some (js ''30'')" by auto
  have nd: "\<not> list_ex isDigit (js ''General category candidates'')"
    by (simp add: js_def isDigit_def)
  note inst = extractAgeLimit_defaults [of asciiLower "js ''General category candidates''" ?s]
  from inst p m(1) have
    "(grp m 1 = None \<and> ageOf ?s [] ?p = [\<lparr>AgeEntry.category = snd ?p, minAge = js ''18'',
                                 maxAge = capture m 3\<rparr>])
     \<or> (\<exists>a. grp m 1 = Some a)"
    by blast
  with m cat have a: "ageOf ?s [] ?p = [?e]" by (simp add: capture_def)
  from inst nd have b: "extractAgeLimit asciiLower (js ''General category candidates'') = []"
    by blast
  note inst2 = extractAgeLimit_defaults [of asciiLower ?s ?s]
  from inst2 have ex: "extractAgeLimit asciiLower ?s = [?e]" by blast
  then have "?e \<in> set (extractAgeLimit asciiLower ?s)" by simp
  with inst2 have "list_all isDigit (maxAge ?e)" by blast
  with ex have c: "\<exists>e. e \<in> set (extractAgeLimit asciiLower ?s)
        \<and> maxAge e = js ''30'' \<and> list_all isDigit (maxAge e)"
    by (intro exI [of _ ?e]) simp
  from p g a b c nd show ?thesis by simp
qed


section \<open>parseJobNotification: the optional fields\<close>

definition notice4 :: jstring where
  "notice4 = js ''Staff Selection Commission invites applications for Clerk posts in Delhi.''"

lemma parse_qualification_fields:
  "qualification (parseJobNotification lc t) = orUndefined (extractQualification lc t)"
  "eligibilityDetails (parseJobNotification lc t) = Some (extractQualification lc t)"
  by (simp_all add: parseJobNotification_def Let_def)

lemma parse_link_fields:
  "applyOnlineUrl (parseJobNotification lc t) = link ApplyOnlineLink (extractLinks lc t)"
  "admitCardUrl (parseJobNotification lc t) = link AdmitCardLink (extractLinks lc t)"
  "resultUrl (parseJobNotification lc t) = link ResultLink (extractLinks lc t)"
  "answerKeyUrl (parseJobNotification lc t) = link AnswerKeyLink (extractLinks lc t)"
  "notificationUrl (parseJobNotification lc t) = link NotificationLink (extractLinks lc t)"
  "officialWebsiteUrl (parseJobNotification lc t) = link OfficialWebsiteLink (extractLinks lc t)"
  by (simp_all add: parseJobNotification_def Let_def)

lemmas qual_defs = qualHeaders_def qualPatterns_def qualStep_def sourceNoiseRe_def backslashRe_def

lemma notice4_qualification: "extractQualification asciiLower notice4 = []"
  unfolding extractQualification_def Let_def
  by (simp add: notice4_def qual_defs regex_defs char_defs string_defs engine_defs)

text \<open>
  C2. The list fields of the record are lists, present in every result. Of the optional
  text fields, \<open>qualification\<close>, \<open>state\<close> and the six link fields are never the empty text:
  the source writes \<open>qualification || undefined\<close> and \<open>state || undefined\<close>, and a link is at
  least eight units long. \<open>eligibilityDetails\<close> is assigned the same text as
  \<open>qualification\<close> without that test: for \<open>notice4\<close>, a notice of 73 units that says
  nothing of a qualification, \<open>qualification\<close> is absent and \<open>eligibilityDetails\<close> is the
  empty text.
\<close>

theorem optional_fields:
  "qualification (parseJobNotification lc t) \<noteq> Some []
   \<and> state (parseJobNotification lc t) \<noteq> Some []
   \<and> applyOnlineUrl (parseJobNotification lc t) \<noteq> Some []
   \<and> admitCardUrl (parseJobNotification lc t) \<noteq> Some []
   \<and> resultUrl (parseJobNotification lc t) \<noteq> Some []
   \<and> answerKeyUrl (parseJobNotification lc t) \<noteq> Some []
   \<and> notificationUrl (parseJobNotification lc t) \<noteq> Some []
   \<and> officialWebsiteUrl (parseJobNotification lc t) \<noteq> Some []
   \<and> 50 \<le> length (trim notice4)
   \<and> qualification (parseJobNotification asciiLower notice4) = None
   \<and> eligibilityDetails (parseJobNotification asciiLower notice4) = Some []"
proof -
  have "state (parseJobNotification lc t) = orUndefined (extractState lc t)"
    by (simp add: parseJobNotification_def Let_def)
  moreover have "orUndefined x \<noteq> Some []" for x
    by (simp add: orUndefined_def)
  moreover have "50 \<le> length (trim notice4)"
    by (simp add: notice4_def char_defs string_defs)
  moreover have "orUndefined [] = None"
    by (simp add: orUndefined_def)
  moreover note link_nonempty [of ApplyOnlineLink lc t] link_nonempty [of AdmitCardLink lc t]
    link_nonempty [of ResultLink lc t] link_nonempty [of AnswerKeyLink lc t]
    link_nonempty [of NotificationLink lc t] link_nonempty [of OfficialWebsiteLink lc t]
  ultimately show ?thesis
    by (simp add: parse_qualification_fields parse_link_fields notice4_qualification)
qed


section \<open>The parser on ASCII text\<close>

text \<open>Each part of the parser is the same for \<open>lc\<close> and for \<open>asciiLower\<close> on an ASCII text,
  when \<open>lc\<close> lower-cases ASCII text as \<open>asciiLower\<close> does.\<close>

lemma ascii_subset: "set w \<subseteq> set s \<Longrightarrow> ascii s \<Longrightarrow> ascii w"
  by (auto simp: ascii_def list_all_iff)

lemma extractSection_ascii:
  assumes "lowers lc" "ascii text" "list_all ascii headers"
  shows "extractSection lc text headers = extractSection asciiLower text headers"
  using assms(3)
proof (induction headers)
  case Nil
  show ?case by simp
next
  case (Cons h hs)
  then have "lc h = asciiLower h" by (simp add: lowers_ascii [OF assms(1)])
  with Cons lowers_ascii [OF assms(1,2)] show ?case by (simp split: option.splits)
qed

lemma ascii_orElse_section:
  "ascii text \<Longrightarrow> ascii (orElse (extractSection lc text headers) text)"
  using set_extractSection [of lc "text" headers]
  by (auto simp: orElse_def intro: ascii_subset)

lemma detectType_ascii:
  "lowers lc \<Longrightarrow> ascii text \<Longrightarrow> detectType lc text = detectType asciiLower text"
  by (simp add: detectType_def lowers_ascii)

lemma extractPhysicalEligibility_ascii:
  "lowers lc \<Longrightarrow> ascii text \<Longrightarrow>
     extractPhysicalEligibility lc text = extractPhysicalEligibility asciiLower text"
  by (simp add: extractPhysicalEligibility_def extractSection_ascii ascii_physical)

lemma feeStep_ascii:
  assumes "lowers lc" "p \<in> set feePatterns"
  shows "feeStep lc s fees p = feeStep asciiLower s fees p"
proof (cases "re_match True (fst p) s")
  case None
  then show ?thesis by (simp add: feeStep_def)
next
  case (Some m)
  from fee_capture [OF assms(2) Some] obtain w where "grp m 1 = Some w" "ascii w" by blast
  then have "formatFee lc (capture m 1) = formatFee asciiLower (capture m 1)"
    by (simp add: capture_def formatFee_def lowers_ascii [OF assms(1)])
  with Some show ?thesis by (simp add: feeStep_def)
qed

lemma extractFees_ascii:
  assumes "lowers lc" "ascii text"
  shows "extractFees lc text = extractFees asciiLower text"
proof -
  have h: "list_all ascii feeHeaders" by (simp add: feeHeaders_def ascii_def js_def)
  have "foldl (feeStep lc s) fees ps = foldl (feeStep asciiLower s) fees ps"
    if "set ps \<subseteq> set feePatterns" for s fees ps
    using that by (induction ps arbitrary: fees) (simp_all add: feeStep_ascii [OF assms(1)])
  then show ?thesis
    by (simp add: extractFees_def Let_def extractSection_ascii [OF assms h])
qed

lemma extractAgeLimit_ascii:
  assumes "lowers lc" "ascii text"
  shows "extractAgeLimit lc text = extractAgeLimit asciiLower text"
proof -
  have "list_all ascii ageHeaders" by (simp add: ageHeaders_def ascii_def js_def)
  from extractSection_ascii [OF assms this] show ?thesis
    by (simp add: extractAgeLimit_def Let_def)
qed

lemma extractQualification_ascii:
  assumes "lowers lc" "ascii text"
  shows "extractQualification lc text = extractQualification asciiLower text"
proof -
  have "list_all ascii qualHeaders" by (simp add: qualHeaders_def ascii_def js_def)
  from extractSection_ascii [OF assms this] show ?thesis
    by (simp add: extractQualification_def Let_def)
qed

lemma extractVacancyDetails_ascii:
  assumes "lowers lc" "ascii text"
  shows "extractVacancyDetails lc text = extractVacancyDetails asciiLower text"
proof -
  have "list_all ascii vacancyHeaders" by (simp add: vacancyHeaders_def ascii_def js_def)
  from extractSection_ascii [OF assms this] show ?thesis
    by (simp add: extractVacancyDetails_def Let_def)
qed

lemma extractState_ascii:
  "lowers lc \<Longrightarrow> ascii text \<Longrightarrow> extractState lc text = extractState asciiLower text"
  by (simp add: extractState_def lowers_ascii)

lemma extractSelectionProcess_ascii:
  assumes "lowers lc" "ascii text"
  shows "extractSelectionProcess lc text = extractSelectionProcess asciiLower text"
proof -
  have h: "list_all ascii selectionHeaders" by (simp add: selectionHeaders_def ascii_def js_def)
  have st: "list_all ascii stages" by (simp add: stages_def ascii_def js_def)
  let ?s = "orElse (extractSection asciiLower text selectionHeaders) text"
  have s: "ascii ?s" using assms(2) by (rule ascii_orElse_section)
  have "stageStep lc ?s process stage = stageStep asciiLower ?s process stage"
    if "stage \<in> set stages" for process stage
    using that st s by (simp add: stageStep_def list_all_iff lowers_ascii [OF assms(1)])
  then have "foldl (stageStep lc ?s) process ss = foldl (stageStep asciiLower ?s) process ss"
    if "set ss \<subseteq> set stages" for process ss
    using that by (induction ss arbitrary: process) simp_all
  then show ?thesis
    by (simp add: extractSelectionProcess_def Let_def extractSection_ascii [OF assms h])
qed

lemma exec_all_whole_subset:
  "m \<in> set (exec_all ic r s k) \<Longrightarrow> set (whole m) \<subseteq> set s"
proof (induction ic r s k rule: exec_all.induct)
  case (1 ic r s lastIndex)
  show ?case
  proof (cases "length s < lastIndex")
    case True
    with 1(2) show ?thesis by (subst (asm) exec_all.simps) simp
  next
    case False
    show ?thesis
    proof (cases "search ic (length s) r (drop lastIndex s)")
      case None
      with False 1(2) show ?thesis by (subst (asm) exec_all.simps) simp
    next
      case (Some m')
      with False 1(2) consider "m = m'"
        | "m \<in> set (exec_all ic r s
              (if whole m' = [] then index m' + 1 else index m' + length (whole m')))"
        by (subst (asm) exec_all.simps) auto
      then show ?thesis
      proof cases
        case 1
        from search_run [OF Some] have "set (whole m') \<subseteq> set (drop lastIndex s)"
          by (auto dest: in_set_takeD)
        with 1 show ?thesis by (auto dest: in_set_dropD)
      next
        case 2
        with "1.IH" [OF False Some] show ?thesis by simp
      qed
    qed
  qed
qed

lemma extractLinks_ascii:
  assumes "lowers lc" "ascii text"
  shows "extractLinks lc text = extractLinks asciiLower text"
proof -
  have u: "ascii url" if "url \<in> set (allUrls text)" for url
  proof -
    from that obtain m where "m \<in> set (exec_all True urlRegex text 0)" "url = whole m"
      by (auto simp: allUrls_def match_all_def)
    with exec_all_whole_subset have "set url \<subseteq> set text" by blast
    then show ?thesis using assms(2) by (rule ascii_subset)
  qed
  have "foldl (linkStep lc) ls urls = foldl (linkStep asciiLower) ls urls"
    if "\<forall>url\<in>set urls. ascii url" for ls urls
    using that
    by (induction urls arbitrary: ls) (simp_all add: linkStep_def lowers_ascii [OF assms(1)])
  with u show ?thesis by (simp add: extractLinks_def)
qed

lemma set_split: "l \<in> set (split sep s) \<Longrightarrow> set l \<subseteq> set s"
proof (induction s arbitrary: l)
  case Nil
  then show ?case by simp
next
  case (Cons x xs)
  show ?case
  proof (cases "x = sep")
    case True
    with Cons show ?thesis by auto
  next
    case False
    show ?thesis
    proof (cases "split sep xs")
      case Nil
      with False Cons.prems show ?thesis by auto
    next
      case c: (Cons a as)
      with False Cons.prems consider "l = x # a" | "l \<in> set as" by auto
      then show ?thesis
      proof cases
        case 1
        from Cons.IH [of a] c have "set a \<subseteq> set xs" by simp
        with 1 show ?thesis by auto
      next
        case 2
        with Cons.IH [of l] c show ?thesis by auto
      qed
    qed
  qed
qed

lemma lineStep_ascii:
  assumes "lowers lc" "ascii line" "\<forall>d\<in>set dates. ascii (label d)"
  shows "lineStep lc dates line = lineStep asciiLower dates line
     \<and> (\<forall>d\<in>set (lineStep lc dates line). ascii (label d))"
proof (cases "re_match False colonRe line")
  case None
  with assms(3) show ?thesis by (simp add: lineStep_def)
next
  case (Some m)
  have c: "ascii (trim (capture m 1))"
  proof (cases "grp m 1")
    case None
    then show ?thesis by (simp add: capture_def trim_def ascii_def)
  next
    case (Some w)
    from re_match_capture_subset [OF \<open>re_match False colonRe line = Some m\<close> Some] set_trim [of w]
    have "set (trim w) \<subseteq> set line" by blast
    with assms(2) Some show ?thesis by (auto simp: capture_def intro: ascii_subset)
  qed
  have "find (\<lambda>d. lc (label d) = lc (trim (capture m 1))) dates
      = find (\<lambda>d. asciiLower (label d) = asciiLower (trim (capture m 1))) dates"
    using assms(3) c by (intro find_cong) (simp_all add: lowers_ascii [OF assms(1)])
  with Some assms(3) c show ?thesis by (auto simp: lineStep_def Let_def)
qed

lemma extractDates_ascii:
  assumes "lowers lc" "ascii text"
  shows "extractDates lc text = extractDates asciiLower text"
proof -
  have h: "list_all ascii dateHeaders" by (simp add: dateHeaders_def ascii_def js_def)
  let ?s = "orElse (extractSection asciiLower text dateHeaders) text"
  have s: "ascii ?s" using assms(2) by (rule ascii_orElse_section)
  have lab: "\<forall>p\<in>set datePatterns. ascii (snd p)"
    by (simp add: datePatterns_def ascii_def js_def)
  have step: "\<forall>d\<in>set (dateStep ?s ds p). ascii (label d)"
    if "\<forall>d\<in>set ds. ascii (label d)" "p \<in> set datePatterns" for ds p
    using that lab by (auto simp: dateStep_def split: option.splits)
  have d: "\<forall>d\<in>set (foldl (dateStep ?s) ds ps). ascii (label d)"
    if "\<forall>d\<in>set ds. ascii (label d)" "set ps \<subseteq> set datePatterns" for ds ps
    using that
  proof (induction ps arbitrary: ds)
    case Nil
    then show ?case by simp
  next
    case (Cons p ps)
    from Cons.prems have "\<forall>d\<in>set (dateStep ?s ds p). ascii (label d)"
      by (intro step) auto
    from Cons.IH [OF this] Cons.prems(2) show ?case by simp
  qed
  have l: "foldl (lineStep lc) ds ls = foldl (lineStep asciiLower) ds ls"
    if "\<forall>d\<in>set ds. ascii (label d)" "\<forall>l\<in>set ls. ascii l" for ds ls
    using that
  proof (induction ls arbitrary: ds)
    case Nil
    show ?case by simp
  next
    case (Cons x xs)
    from lineStep_ascii [OF assms(1), of x ds] Cons.prems
    have "lineStep lc ds x = lineStep asciiLower ds x"
      "\<forall>d\<in>set (lineStep asciiLower ds x). ascii (label d)" by auto
    with Cons.IH [of "lineStep asciiLower ds x"] Cons.prems(2) show ?case by simp
  qed
  have "\<forall>l\<in>set (split 10 ?s). ascii l"
    using s by (auto dest!: set_split intro: ascii_subset)
  with l [of "foldl (dateStep ?s) [] datePatterns" "split 10 ?s"] d [of "[]" datePatterns]
  show ?thesis
    by (simp add: extractDates_def Let_def extractSection_ascii [OF assms h])
qed

text \<open>
  On an ASCII text the parser lower-cases nothing but ASCII text: the text itself, pieces
  of it, and the literals of the source. So it returns the same record for every
  lower-casing function that treats ASCII text as the library does, and the examples of
  this theory, which are ASCII texts run with \<open>asciiLower\<close>, are results of the parser with
  the library's function.
\<close>

theorem parseJobNotification_ascii:
  assumes "lowers lc" "ascii rawText"
  shows "parseJobNotification lc rawText = parseJobNotification asciiLower rawText"
  using assms
  by (simp add: parseJobNotification_def detectType_ascii extractDates_ascii extractFees_ascii
      extractAgeLimit_ascii extractPhysicalEligibility_ascii extractVacancyDetails_ascii
      extractSelectionProcess_ascii extractQualification_ascii extractState_ascii
      extractLinks_ascii)

end
